theory Spec2Isabelle
  imports Complex_Main
begin

section \<open>Data model of MoveTree.js\<close>

text \<open>
  Strings are lists of code units below 256. A JavaScript object is a cell of an explicit
  store: the tree's \<open>heap\<close> is the list of all node objects ever allocated, and a
  reference is an index into it. \<open>mainline\<close>, \<open>nodeMap\<close>, \<open>children\<close>,
  \<open>currentNode\<close> and \<open>final\<close> hold references, so that two places naming the same
  object see each other's mutations, and \<open>===\<close> on objects is equality of references.
  The field \<open>clockData\<close> of the tree is set to an empty map by the constructor and
  never used again; it is left out. Rendering is left out as well.
\<close>

text \<open>The \<open>promotion\<close> field of a move: absent (\<open>undefined\<close>), \<open>null\<close>, or the
  letter of a piece. The source compares it with \<open>===\<close>, which tells \<open>undefined\<close> from
  \<open>null\<close>.\<close>

datatype promotion_value = Undefined | Null | Piece string

text \<open>A structured move as the rules engine hands it out, or as a caller passes it
  (\<open>from\<close>, \<open>to\<close>, \<open>promotion\<close>, \<open>san\<close>, \<open>lan\<close>).\<close>

record chess_move =
  from_sq :: string
  to_sq :: string
  promotion :: promotion_value
  san :: string
  lan :: string

text \<open>The analysis result consumed by \<open>updateClassification\<close>.\<close>

record pv_line =
  line_id :: int
  score :: int
  line_type :: "string option"

record analysis =
  classification_type :: string
  lines :: "pv_line list option"

text \<open>A node object. An absent, \<open>null\<close> or \<open>undefined\<close> field is \<open>None\<close>.
  \<open>moveNumber\<close> is a JavaScript number that is an integer or an integer plus one half.\<close>

record node =
  id_n :: string
  moveNumber :: "rat option"
  san_n :: "string option"
  move :: "chess_move option"
  fen :: "string option"
  children :: "nat list"
  isMainline :: bool
  parentIndex :: "int option"
  parentId :: "string option"
  clock_n :: "string option"
  classification :: "string option"
  evaluatedMove :: "analysis option"
  evalScore :: "int option"
  evalType :: "string option"

record tree =
  heap :: "node list"
  mainline :: "nat list"
  nodeMap :: "string \<rightharpoonup> nat"
  currentNode :: "nat option"
  final :: "nat option"
  idCounter :: nat
  currentIndex :: int

text \<open>What a call does: it returns a value or it raises.\<close>

datatype 'a outcome = Return 'a | Throw

datatype colour = White | Black

text \<open>
  The rules engine (\<open>libs/chess.js\<close>) is an external collaborator and is taken as a
  parameter. \<open>'p\<close> is the state of one \<open>Chess\<close> instance.
  \<^item> \<open>e_reset\<close>: the state of \<open>new Chess()\<close> and the state after \<open>reset()\<close>;
  \<^item> \<open>e_loadPgn pgn\<close>: \<open>loadPgn(pgn)\<close> followed by \<open>history({verbose: true})\<close>,
    \<open>None\<close> when \<open>loadPgn\<close> raises;
  \<^item> \<open>e_load f\<close>: \<open>load(f)\<close>, \<open>None\<close> when it raises (\<open>f\<close> may be \<open>null\<close>);
  \<^item> \<open>e_fen\<close>, \<open>e_turn\<close>, \<open>e_moveNumber\<close>: \<open>fen()\<close>, \<open>turn()\<close>, \<open>moveNumber()\<close>;
  \<^item> \<open>e_move\<close>: \<open>move(m)\<close> with a structured move, \<open>e_moveLan\<close>: \<open>move(s)\<close> with a
    string; \<open>None\<close> when the engine raises.
\<close>

record 'p engine =
  e_reset :: 'p
  e_loadPgn :: "string \<Rightarrow> chess_move list option"
  e_load :: "string option \<Rightarrow> 'p option"
  e_fen :: "'p \<Rightarrow> string"
  e_turn :: "'p \<Rightarrow> colour"
  e_moveNumber :: "'p \<Rightarrow> nat"
  e_move :: "'p \<Rightarrow> chess_move \<Rightarrow> 'p option"
  e_moveLan :: "'p \<Rightarrow> string \<Rightarrow> 'p option"

section \<open>Regular expressions\<close>

text \<open>
  The three regular expressions of \<open>extractClockAnnotations\<close> are run by a backtracking
  matcher with the semantics of ECMAScript: a greedy quantifier tries the longest run first,
  a lazy one the shortest, an optional group is tried with its body before it is skipped,
  and whatever follows the quantifier is matched before a choice is final. Quantified
  bodies in the source are single character classes, so \<open>Star\<close>, \<open>Plus\<close> and
  \<open>LazyStar\<close> take a class. \<open>Open k\<close> and \<open>Close k\<close> delimit capture group \<open>k\<close>.
  A capture list holds (group, start, end), the most recent first.
\<close>

type_synonym caps = "(nat \<times> nat \<times> nat) list"

datatype atom =
    One "char \<Rightarrow> bool"
  | Star "char \<Rightarrow> bool"
  | Plus "char \<Rightarrow> bool"
  | LazyStar "char \<Rightarrow> bool"
  | Bol
  | Eol
  | Open nat
  | Close nat

datatype item = At atom | Opt "atom list"

definition is_line_terminator :: "char \<Rightarrow> bool" where
  "is_line_terminator c = (c = CHR 0x0A \<or> c = CHR 0x0D)"

text \<open>\<open>\s\<close>, and the characters \<open>trim\<close> removes, among the code units below 256.\<close>

definition is_space :: "char \<Rightarrow> bool" where
  "is_space c = (c = CHR 0x09 \<or> c = CHR 0x0A \<or> c = CHR 0x0B \<or> c = CHR 0x0C \<or> c = CHR 0x0D
                 \<or> c = CHR 0x20 \<or> c = CHR 0xA0)"

definition is_digit :: "char \<Rightarrow> bool" where
  "is_digit c = (c \<in> set ''0123456789'')"

definition run :: "(char \<Rightarrow> bool) \<Rightarrow> string \<Rightarrow> nat \<Rightarrow> nat" where
  "run c s pos = length (takeWhile c (drop pos s))"

fun close_cap :: "nat \<Rightarrow> nat \<Rightarrow> caps \<Rightarrow> caps" where
  "close_cap k pos [] = []"
| "close_cap k pos ((g, b, e) # cs) =
     (if g = k then (g, b, pos) # cs else (g, b, e) # close_cap k pos cs)"

fun weight :: "item \<Rightarrow> nat" where
  "weight (At a) = 1"
| "weight (Opt as) = Suc (length as)"

function rx_match :: "item list \<Rightarrow> string \<Rightarrow> nat \<Rightarrow> caps \<Rightarrow> (nat \<times> caps) option"
  and rx_greedy :: "item list \<Rightarrow> string \<Rightarrow> nat \<Rightarrow> nat \<Rightarrow> nat \<Rightarrow> caps \<Rightarrow> (nat \<times> caps) option"
  and rx_lazy :: "(char \<Rightarrow> bool) \<Rightarrow> item list \<Rightarrow> string \<Rightarrow> nat \<Rightarrow> caps \<Rightarrow> (nat \<times> caps) option"
where
  "rx_match [] s pos cs = Some (pos, cs)"
| "rx_match (At (One c) # r) s pos cs =
     (if pos < length s \<and> c (s ! pos) then rx_match r s (pos + 1) cs else None)"
| "rx_match (At (Star c) # r) s pos cs = rx_greedy r s pos 0 (run c s pos) cs"
| "rx_match (At (Plus c) # r) s pos cs = rx_greedy r s pos 1 (run c s pos) cs"
| "rx_match (At (LazyStar c) # r) s pos cs = rx_lazy c r s pos cs"
| "rx_match (At Bol # r) s pos cs =
     (if pos = 0 \<or> is_line_terminator (s ! (pos - 1)) then rx_match r s pos cs else None)"
| "rx_match (At Eol # r) s pos cs =
     (if pos \<ge> length s \<or> is_line_terminator (s ! pos) then rx_match r s pos cs else None)"
| "rx_match (At (Open k) # r) s pos cs = rx_match r s pos ((k, pos, pos) # cs)"
| "rx_match (At (Close k) # r) s pos cs = rx_match r s pos (close_cap k pos cs)"
| "rx_match (Opt as # r) s pos cs =
     (case rx_match (map At as @ r) s pos cs of
        Some x \<Rightarrow> Some x
      | None \<Rightarrow> rx_match r s pos cs)"
| "rx_greedy r s pos lo n cs =
     (if n < lo then None
      else case rx_match r s (pos + n) cs of
             Some x \<Rightarrow> Some x
           | None \<Rightarrow> if n = 0 then None else rx_greedy r s pos lo (n - 1) cs)"
| "rx_lazy c r s pos cs =
     (case rx_match r s pos cs of
        Some x \<Rightarrow> Some x
      | None \<Rightarrow> if pos < length s \<and> c (s ! pos) then rx_lazy c r s (pos + 1) cs else None)"
  by pat_completeness auto
termination
  by (relation "inv_image (less_than <*lex*> less_than)
        (\<lambda>x. case x of
           Inl (r, s, pos, cs) \<Rightarrow> (2 * sum_list (map weight r), 0)
         | Inr (Inl (r, s, pos, lo, n, cs)) \<Rightarrow> (2 * sum_list (map weight r) + 1, n)
         | Inr (Inr (c, r, s, pos, cs)) \<Rightarrow> (2 * sum_list (map weight r) + 1, length s - pos))")
     (auto simp: comp_def sum_list_triv)

text \<open>All matches of a global regular expression from \<open>pos\<close> on, as \<open>matchAll\<close> and
  \<open>replace\<close> find them: (index, end, captures); after an empty match the search moves
  one character on.\<close>

function rx_scan :: "item list \<Rightarrow> string \<Rightarrow> nat \<Rightarrow> (nat \<times> nat \<times> caps) list" where
  "rx_scan re s pos =
     (if pos > length s then []
      else case rx_match re s pos [] of
             Some (e, cs) \<Rightarrow> (pos, e, cs) # rx_scan re s (if e \<le> pos then pos + 1 else e)
           | None \<Rightarrow> rx_scan re s (pos + 1))"
  by pat_completeness auto
termination
  by (relation "measure (\<lambda>(re, s, pos). Suc (length s) - pos)") auto

definition substr :: "string \<Rightarrow> nat \<Rightarrow> nat \<Rightarrow> string" where
  "substr s b e = take (e - b) (drop b s)"

text \<open>\<open>match[k]\<close>: undefined when the group took no part in the match.\<close>

definition group :: "string \<Rightarrow> caps \<Rightarrow> nat \<Rightarrow> string option" where
  "group s cs k =
     (case List.find (\<lambda>(g, b, e). g = k) cs of
        None \<Rightarrow> None
      | Some (g, b, e) \<Rightarrow> Some (substr s b e))"

text \<open>\<open>s.replace(re, '')\<close> for the matches of a global \<open>re\<close>.\<close>

fun remove_matches :: "string \<Rightarrow> nat \<Rightarrow> (nat \<times> nat \<times> caps) list \<Rightarrow> string" where
  "remove_matches s k [] = drop k s"
| "remove_matches s k ((i, e, cs) # ms) = substr s k i @ remove_matches s e ms"

definition trim :: "string \<Rightarrow> string" where
  "trim s = rev (dropWhile is_space (rev (dropWhile is_space s)))"

text \<open>\<open>hay.indexOf(needle)\<close>\<close>

fun indexOf :: "string \<Rightarrow> string \<Rightarrow> int" where
  "indexOf [] needle = (if needle = [] then 0 else -1)"
| "indexOf (h # hay) needle =
     (if take (length needle) (h # hay) = needle then 0
      else (let i = indexOf hay needle in if i = -1 then -1 else i + 1))"

definition lit :: "char \<Rightarrow> atom" where
  "lit ch = One (\<lambda>c. c = ch)"

text \<open>\<^verbatim>\<open>/^\[[\s\S]*?\]\s*$/gm\<close>\<close>

definition headerRegex :: "item list" where
  "headerRegex = map At
     [Bol, lit CHR ''['', LazyStar (\<lambda>c. True), lit CHR '']'', Star is_space, Eol]"

text \<open>\<^verbatim>\<open>/\{[^}]*\[%clk\s+([^\]]+)\][^}]*\}/g\<close>\<close>

definition clockRegex :: "item list" where
  "clockRegex = map At
     [lit CHR ''{'', Star (\<lambda>c. c \<noteq> CHR ''}''), lit CHR ''['', lit CHR ''%'', lit CHR ''c'',
      lit CHR ''l'', lit CHR ''k'', Plus is_space, Open 1, Plus (\<lambda>c. c \<noteq> CHR '']''), Close 1,
      lit CHR '']'', Star (\<lambda>c. c \<noteq> CHR ''}''), lit CHR ''}'']"

text \<open>\<^verbatim>\<open>/\d+\.\s*([^\s{]+)(?:\s+\{[^}]*\})?\s*([^\s{]+)?(?:\s+\{[^}]*\})?/g\<close>\<close>

definition comment_group :: "atom list" where
  "comment_group = [Plus is_space, lit CHR ''{'', Star (\<lambda>c. c \<noteq> CHR ''}''), lit CHR ''}'']"

definition move_token :: "char \<Rightarrow> bool" where
  "move_token c = (\<not> is_space c \<and> c \<noteq> CHR ''{'')"

definition moveRegex :: "item list" where
  "moveRegex =
     map At [Plus is_digit, lit CHR ''.'', Star is_space, Open 1, Plus move_token, Close 1]
     @ [Opt comment_group, At (Star is_space), Opt [Open 2, Plus move_token, Close 2],
        Opt comment_group]"

section \<open>extractClockAnnotations\<close>

text \<open>One record of the result; \<open>color\<close> is \<open>'white'\<close> or \<open>'black'\<close>.\<close>

record clock_rec =
  moveIndex :: nat
  color :: colour
  clock :: string

text \<open>\<open>clockData[i] = v\<close> on a JavaScript array: writing past the end leaves holes.\<close>

definition set_at :: "'a option list \<Rightarrow> nat \<Rightarrow> 'a \<Rightarrow> 'a option list" where
  "set_at xs i v =
     (if i < length xs then xs[i := Some v]
      else xs @ replicate (i - length xs) None @ [Some v])"

text \<open>The inner \<open>for\<close> loop: the first \<open>i\<close> from \<open>clockIndex\<close> on whose match starts
  after the move.\<close>

function first_after :: "(nat \<times> nat \<times> caps) list \<Rightarrow> int \<Rightarrow> nat \<Rightarrow> nat option" where
  "first_after clockMatches movePos i =
     (if i < length clockMatches then
        (if int (fst (clockMatches ! i)) > movePos then Some i
         else first_after clockMatches movePos (i + 1))
      else None)"
  by pat_completeness auto
termination
  by (relation "measure (\<lambda>(ms, p, i). length ms - i)") auto

text \<open>The block run for the white and for the black token of one move match. The state
  is (\<open>moveIndex\<close>, \<open>clockIndex\<close>, \<open>clockData\<close>), written \<open>(mIndex, cIndex, cData)\<close>.
  Group 1 of the clock expression is not optional, so it is defined in every match.\<close>

definition clock_step ::
  "(nat \<times> nat \<times> caps) list \<Rightarrow> string \<Rightarrow> colour \<Rightarrow> int
     \<Rightarrow> nat \<times> nat \<times> clock_rec option list \<Rightarrow> nat \<times> nat \<times> clock_rec option list" where
  "clock_step clockMatches moveText col movePos st =
     (case st of (mIndex, cIndex, cData) \<Rightarrow>
        (if cIndex < length clockMatches \<and> int (fst (clockMatches ! cIndex)) > movePos then
           (case first_after clockMatches movePos cIndex of
              Some i \<Rightarrow>
                (mIndex + 1, i + 1,
                 set_at cData mIndex
                   \<lparr> moveIndex = mIndex, color = col,
                     clock = trim (case group moveText (snd (snd (clockMatches ! i))) 1 of
                                     Some c \<Rightarrow> c | None \<Rightarrow> []) \<rparr>)
            | None \<Rightarrow> (mIndex + 1, cIndex, cData))
         else (mIndex + 1, cIndex, cData)))"

text \<open>The body of the \<open>while\<close> loop for one match of the move expression. An undefined
  or empty token is falsy.\<close>

definition move_step ::
  "(nat \<times> nat \<times> caps) list \<Rightarrow> string \<Rightarrow> nat \<times> nat \<times> caps
     \<Rightarrow> nat \<times> nat \<times> clock_rec option list \<Rightarrow> nat \<times> nat \<times> clock_rec option list" where
  "move_step clockMatches moveText m st =
     (case m of (idx, e, cs) \<Rightarrow>
        (let match0 = substr moveText idx e;
             whiteMove = group moveText cs 1;
             blackMove = group moveText cs 2;
             st1 = (case whiteMove of
                      None \<Rightarrow> st
                    | Some w \<Rightarrow>
                       if w = [] then st
                       else clock_step clockMatches moveText White (int idx + indexOf match0 w) st)
         in (case blackMove of
               None \<Rightarrow> st1
             | Some b \<Rightarrow>
                if b = [] then st1
                else clock_step clockMatches moveText Black (int idx + indexOf match0 b) st1)))"

definition moveText_of :: "string \<Rightarrow> string" where
  "moveText_of pgn = trim (remove_matches pgn 0 (rx_scan headerRegex pgn 0))"

text \<open>The \<open>while\<close> loop calls \<open>exec\<close> until it fails, which visits the matches that
  \<open>rx_scan\<close> lists: a match of the move expression holds a digit and a dot, so it is
  never empty.\<close>

definition extractClockAnnotations :: "string \<Rightarrow> clock_rec option list" where
  "extractClockAnnotations pgn =
     (let moveText = moveText_of pgn;
          clockMatches = rx_scan clockRegex moveText 0
      in if length clockMatches = 0 then []
         else snd (snd (foldl (\<lambda>st m. move_step clockMatches moveText m st) (0, 0, [])
                          (rx_scan moveRegex moveText 0))))"

section \<open>The constructor\<close>

definition root_node :: "rat option \<Rightarrow> string option \<Rightarrow> node" where
  "root_node mn f =
     \<lparr> id_n = ''root'', moveNumber = mn, san_n = None, move = None, fen = f,
       children = [], isMainline = True, parentIndex = None, parentId = None,
       clock_n = None, classification = None, evaluatedMove = None,
       evalScore = None, evalType = None \<rparr>"

definition constructor :: tree where
  "constructor =
     \<lparr> heap = [root_node (Some 1) None], mainline = [0],
       nodeMap = [''root'' \<mapsto> 0], currentNode = Some 0, final = None,
       idCounter = 0, currentIndex = 0 \<rparr>"

section \<open>Lookup helpers\<close>

text \<open>\<open>Array.prototype.findIndex\<close>: the first index whose element satisfies the
  predicate, \<open>-1\<close> when there is none.\<close>

fun findIndex :: "('a \<Rightarrow> bool) \<Rightarrow> 'a list \<Rightarrow> int" where
  "findIndex P [] = -1"
| "findIndex P (x # xs) =
     (if P x then 0 else (let i = findIndex P xs in if i = -1 then -1 else i + 1))"

definition getNodeIndex :: "tree \<Rightarrow> node \<Rightarrow> int" where
  "getNodeIndex t n = findIndex (\<lambda>r. id_n (heap t ! r) = id_n n) (mainline t)"

text \<open>\<open>this.mainline[0]\<close>, undefined on an empty array.\<close>

definition mainline0 :: "tree \<Rightarrow> nat option" where
  "mainline0 t = (case mainline t of [] \<Rightarrow> None | r # _ \<Rightarrow> Some r)"

text \<open>\<open>x.move?.from === move.from && x.move?.to === move.to &&
  x.move?.promotion === move.promotion\<close>: a node without a move yields \<open>undefined\<close>
  for \<open>from\<close>, which is never equal to the string \<open>move.from\<close>.\<close>

definition same_move :: "chess_move option \<Rightarrow> chess_move \<Rightarrow> bool" where
  "same_move nm mv =
     (case nm of None \<Rightarrow> False
      | Some m \<Rightarrow> from_sq m = from_sq mv \<and> to_sq m = to_sq mv \<and> promotion m = promotion mv)"

text \<open>The block of \<open>findExistingMove\<close> under \<open>if (parentNode.isMainline)\<close>: the node it
  returns, \<open>None\<close> when control falls through to the search among the children.\<close>

definition mainline_successor :: "tree \<Rightarrow> node \<Rightarrow> chess_move \<Rightarrow> nat option" where
  "mainline_successor t parentNode mv =
     (if isMainline parentNode then
        (let pIndex = getNodeIndex t parentNode in
         if pIndex \<noteq> -1 \<and> pIndex + 1 < int (length (mainline t)) then
           (let nextMove = mainline t ! nat (pIndex + 1) in
            if same_move (move (heap t ! nextMove)) mv then Some nextMove else None)
         else None)
      else None)"

definition findExistingMove :: "tree \<Rightarrow> nat \<Rightarrow> chess_move \<Rightarrow> nat option" where
  "findExistingMove t pr mv =
     (let parentNode = heap t ! pr in
      case mainline_successor t parentNode mv of
        Some r \<Rightarrow> Some r
      | None \<Rightarrow> List.find (\<lambda>child. same_move (move (heap t ! child)) mv) (children parentNode))"

section \<open>Node identifiers\<close>

text \<open>Decimal rendering of a non-negative integer in a template literal.\<close>

definition digit_char :: "nat \<Rightarrow> char" where
  "digit_char d = char_of (48 + d)"

fun show_nat :: "nat \<Rightarrow> string" where
  "show_nat n = (if n < 10 then [digit_char n] else show_nat (n div 10) @ [digit_char (n mod 10)])"

declare show_nat.simps [simp del]

text \<open>\<open>san.replace(/[+#]/g, m => m === '+' ? 'check' : 'mate')\<close>\<close>

definition sanitize :: "string \<Rightarrow> string" where
  "sanitize s =
     concat (map (\<lambda>c. if c = CHR ''+'' then ''check'' else if c = CHR ''#'' then ''mate'' else [c]) s)"

definition side_letter :: "bool \<Rightarrow> string" where
  "side_letter isWhiteTurn = (if isWhiteTurn then ''w'' else ''b'')"

definition base_id :: "string \<Rightarrow> nat \<Rightarrow> bool \<Rightarrow> string \<Rightarrow> string" where
  "base_id kind mn isWhiteTurn s =
     kind @ ''_'' @ show_nat mn @ ''_'' @ side_letter isWhiteTurn @ ''_'' @ sanitize s"

definition half_move_number :: "nat \<Rightarrow> bool \<Rightarrow> rat" where
  "half_move_number mn isWhiteTurn = (if isWhiteTurn then of_nat mn else of_nat mn + 1 / 2)"

section \<open>addMove\<close>

definition addMove :: "'p engine \<Rightarrow> chess_move \<Rightarrow> string \<Rightarrow> tree \<Rightarrow> nat option outcome \<times> tree" where
  "addMove E mv pid t =
     (case nodeMap t pid of
        None \<Rightarrow> (Return None, t)
      | Some pr \<Rightarrow>
         (case findExistingMove t pr mv of
            Some existingNode \<Rightarrow> (Return (Some existingNode), t)
          | None \<Rightarrow>
             (let parent = heap t ! pr in
              case e_load E (fen parent) of
                None \<Rightarrow> (Throw, t)
              | Some pos \<Rightarrow>
                 (let isWhiteTurn = (e_turn E pos = White);
                      mn = e_moveNumber E pos;
                      pIndex = getNodeIndex t parent;
                      isMain = (isMainline parent \<and> pIndex = int (length (mainline t)) - 1);
                      t1 = t\<lparr>idCounter := idCounter t + 1\<rparr>;
                      nodeId0 = base_id (if isMain then ''move'' else ''var'') mn isWhiteTurn (san mv)
                                @ (if isMain then [] else ''_'' @ show_nat (idCounter t1));
                      nodeId = (if isMain \<and> nodeMap t1 nodeId0 \<noteq> None
                                then nodeId0 @ ''_'' @ show_nat (idCounter t1) else nodeId0)
                  in case e_move E pos mv of
                       None \<Rightarrow> (Throw, t1)
                     | Some pos' \<Rightarrow>
                        (let n = \<lparr> id_n = nodeId, moveNumber = Some (half_move_number mn isWhiteTurn),
                                   san_n = Some (san mv), move = Some mv, fen = Some (e_fen E pos'),
                                   children = [], isMainline = isMain,
                                   parentIndex = (if isMain then Some pIndex else None),
                                   parentId = Some pid,
                                   clock_n = None, classification = None, evaluatedMove = None,
                                   evalScore = None, evalType = None \<rparr>;
                             r = length (heap t1);
                             t2 = (if isMain
                                   then t1\<lparr>heap := heap t1 @ [n], mainline := mainline t1 @ [r],
                                           final := Some r\<rparr>
                                   else t1\<lparr>heap := (heap t1)[pr := parent\<lparr>children := children parent @ [r]\<rparr>] @ [n]\<rparr>)
                         in (Return (Some r), t2\<lparr>nodeMap := (nodeMap t2)(nodeId \<mapsto> r)\<rparr>))))))"

section \<open>buildFromPGN\<close>

text \<open>\<open>clockData.find(c => c.moveIndex === index)\<close>: \<open>find\<close> also visits the holes of
  the array, where \<open>c\<close> is undefined and reading \<open>c.moveIndex\<close> raises.\<close>

fun find_clock :: "clock_rec option list \<Rightarrow> nat \<Rightarrow> clock_rec option outcome" where
  "find_clock [] index = Return None"
| "find_clock (None # cs) index = Throw"
| "find_clock (Some c # cs) index =
     (if moveIndex c = index then Return (Some c) else find_clock cs index)"

text \<open>The \<open>for\<close> loop over \<open>history.entries()\<close>, with the loop variables \<open>index\<close>,
  \<open>moveNumber\<close>, \<open>isWhiteTurn\<close> and the state of \<open>chessInstance\<close>.\<close>

fun build_loop ::
  "'p engine \<Rightarrow> clock_rec option list \<Rightarrow> chess_move list \<Rightarrow> nat \<Rightarrow> nat \<Rightarrow> bool \<Rightarrow> 'p \<Rightarrow> tree
     \<Rightarrow> unit outcome \<times> tree" where
  "build_loop E clockData [] index mn isWhiteTurn pos t = (Return (), t)"
| "build_loop E clockData (mv # rest) index mn isWhiteTurn pos t =
     (let nodeId = base_id ''move'' mn isWhiteTurn (san mv);
          n = \<lparr> id_n = nodeId, moveNumber = Some (half_move_number mn isWhiteTurn),
                san_n = Some (san mv), move = Some mv, fen = None,
                children = [], isMainline = True,
                parentIndex = Some (int (length (mainline t)) - 1), parentId = None,
                clock_n = None, classification = None, evaluatedMove = None,
                evalScore = None, evalType = None \<rparr>
      in case find_clock clockData index of
           Throw \<Rightarrow> (Throw, t)
         | Return clockInfo \<Rightarrow>
            (let n1 = (case clockInfo of None \<Rightarrow> n | Some c \<Rightarrow> n\<lparr>clock_n := Some (clock c)\<rparr>)
             in case e_moveLan E pos (lan mv) of
                  None \<Rightarrow> (Throw, t)
                | Some pos' \<Rightarrow>
                   (let n2 = n1\<lparr>fen := Some (e_fen E pos')\<rparr>;
                        r = length (heap t);
                        t1 = t\<lparr>heap := heap t @ [n2], mainline := mainline t @ [r],
                               nodeMap := (nodeMap t)(nodeId \<mapsto> r), final := Some r\<rparr>
                    in build_loop E clockData rest (index + 1)
                         (if isWhiteTurn then mn else mn + 1) (\<not> isWhiteTurn) pos' t1)))"

text \<open>The instance passed in, or the new one, is reset after \<open>loadPgn\<close>, so the replay
  starts from \<open>e_reset\<close> either way. The nodes of an earlier tree stay in the store:
  \<open>final\<close> is not reset and may still name one.\<close>

definition buildFromPGN :: "'p engine \<Rightarrow> string \<Rightarrow> tree \<Rightarrow> chess_move list outcome \<times> tree" where
  "buildFromPGN E pgn t =
     (let clockData = extractClockAnnotations pgn in
      case e_loadPgn E pgn of
        None \<Rightarrow> (Throw, t)
      | Some history \<Rightarrow>
         (let r0 = length (heap t);
              t1 = t\<lparr>heap := heap t @ [root_node None (Some (e_fen E (e_reset E)))],
                     mainline := [r0], nodeMap := [''root'' \<mapsto> r0],
                     currentNode := Some r0, currentIndex := 0\<rparr>
          in case build_loop E clockData history 0 1 True (e_reset E) t1 of
               (Throw, t2) \<Rightarrow> (Throw, t2)
             | (Return u, t2) \<Rightarrow> (Return history, t2\<lparr>currentNode := mainline0 t2\<rparr>)))"

section \<open>updateClassification\<close>

definition updateClassification :: "string \<Rightarrow> analysis \<Rightarrow> tree \<Rightarrow> tree" where
  "updateClassification nodeId a t =
     (case nodeMap t nodeId of
        None \<Rightarrow> t
      | Some r \<Rightarrow>
         (let n = heap t ! r;
              n1 = n\<lparr>classification := Some (classification_type a), evaluatedMove := Some a\<rparr>;
              n2 = (case lines a of
                      None \<Rightarrow> n1
                    | Some ls \<Rightarrow>
                       if length ls > 0 then
                         (case List.find (\<lambda>l. line_id l = 1) ls of
                            None \<Rightarrow> n1
                          | Some topLine \<Rightarrow>
                             n1\<lparr>evalScore := Some (score topLine),
                                evalType := Some (case line_type topLine of
                                                    None \<Rightarrow> ''cp''
                                                  | Some ty \<Rightarrow> if ty = [] then ''cp'' else ty)\<rparr>)
                       else n1)
          in t\<lparr>heap := (heap t)[r := n2]\<rparr>))"

section \<open>Navigation and paths\<close>

definition navigateTo :: "string \<Rightarrow> tree \<Rightarrow> nat option \<times> tree" where
  "navigateTo nodeId t =
     (case nodeMap t nodeId of
        None \<Rightarrow> (None, t)
      | Some r \<Rightarrow>
         (let t1 = t\<lparr>currentNode := Some r\<rparr>;
              nodeIndex = getNodeIndex t1 (heap t1 ! r)
          in (Some r, if nodeIndex \<noteq> -1 then t1\<lparr>currentIndex := nodeIndex\<rparr> else t1)))"

definition getNextMove :: "tree \<Rightarrow> nat option" where
  "getNextMove t =
     (case currentNode t of
        None \<Rightarrow> None
      | Some c \<Rightarrow>
         (let cIndex = getNodeIndex t (heap t ! c) in
          if cIndex \<noteq> -1 \<and> cIndex < int (length (mainline t)) - 1
          then Some (mainline t ! nat (cIndex + 1))
          else (case children (heap t ! c) of [] \<Rightarrow> None | k # _ \<Rightarrow> Some k)))"

text \<open>An empty string as \<open>parentId\<close> is falsy.\<close>

definition parent_ref :: "tree \<Rightarrow> nat \<Rightarrow> nat option" where
  "parent_ref t c =
     (case parentId (heap t ! c) of
        None \<Rightarrow> None
      | Some p \<Rightarrow> if p = [] then None else nodeMap t p)"

text \<open>With \<open>null\<close> as current node the first test fails (\<open>null\<close> is not
  \<open>mainline[0]\<close>, not even an undefined one) and the call raises on reading a field of
  \<open>null\<close>.\<close>

definition getPreviousMove :: "tree \<Rightarrow> nat option outcome" where
  "getPreviousMove t =
     (case currentNode t of
        None \<Rightarrow> Throw
      | Some c \<Rightarrow>
         if Some c = mainline0 t then Return None
         else (let cIndex = getNodeIndex t (heap t ! c) in
               if cIndex > 0 then Return (Some (mainline t ! nat (cIndex - 1)))
               else Return (parent_ref t c)))"

text \<open>The loop of \<open>getPathToNode\<close> follows \<open>parentId\<close> through \<open>nodeMap\<close>; nothing in
  its body bounds it, so it is a partial function and \<open>None\<close> means that it never ends.\<close>

partial_function (option) walk_parents :: "tree \<Rightarrow> nat option \<Rightarrow> nat list \<Rightarrow> nat list option" where
  "walk_parents t current path =
     (case current of
        None \<Rightarrow> Some path
      | Some c \<Rightarrow>
         if Some c = mainline0 t then Some path
         else walk_parents t (parent_ref t c) (c # path))"

declare walk_parents.simps [code]

definition getPathToNode :: "tree \<Rightarrow> string \<Rightarrow> nat list option" where
  "getPathToNode t nodeId =
     (case nodeMap t nodeId of
        None \<Rightarrow> Some []
      | Some r \<Rightarrow>
         (let nodeIndex = getNodeIndex t (heap t ! r) in
          if nodeIndex \<noteq> -1 then Some (drop 1 (take (nat (nodeIndex + 1)) (mainline t)))
          else walk_parents t (Some r) []))"

text \<open>\<open>node.move && node.san\<close>: an empty string is falsy.\<close>

definition getMovesToNode :: "tree \<Rightarrow> string \<Rightarrow> (string \<times> chess_move) list option" where
  "getMovesToNode t nodeId =
     map_option
       (\<lambda>path. concat (map (\<lambda>r. case (move (heap t ! r), san_n (heap t ! r)) of
                                   (Some m, Some s) \<Rightarrow> if s = [] then [] else [(s, m)]
                                 | _ \<Rightarrow> []) path))
       (getPathToNode t nodeId)"

section \<open>Notions used in the statements\<close>

text \<open>Replaying a history with \<open>move(lan)\<close>, as \<open>buildFromPGN\<close> does.\<close>

fun replay_lan :: "'p engine \<Rightarrow> 'p \<Rightarrow> chess_move list \<Rightarrow> 'p option" where
  "replay_lan E pos [] = Some pos"
| "replay_lan E pos (mv # rest) =
     (case e_moveLan E pos (lan mv) of None \<Rightarrow> None | Some pos' \<Rightarrow> replay_lan E pos' rest)"

text \<open>Replaying the result of \<open>getMovesToNode\<close> with \<open>move(m)\<close>.\<close>

fun replay :: "'p engine \<Rightarrow> 'p \<Rightarrow> (string \<times> chess_move) list \<Rightarrow> 'p option" where
  "replay E pos [] = Some pos"
| "replay E pos ((s, mv) # rest) =
     (case e_move E pos mv of None \<Rightarrow> None | Some pos' \<Rightarrow> replay E pos' rest)"

text \<open>Plies counted in half moves: move \<open>mn\<close> of White is ply \<open>2 * mn\<close>, of Black
  \<open>2 * mn + 1\<close>; \<open>ply_number\<close> is the \<open>moveNumber\<close> field of that ply.\<close>

definition ply_no :: "nat \<Rightarrow> bool \<Rightarrow> nat" where
  "ply_no mn isWhiteTurn = 2 * mn + (if isWhiteTurn then 0 else 1)"

definition ply_number :: "nat \<Rightarrow> rat" where
  "ply_number k = of_nat (k div 2) + (if even k then 0 else 1 / 2)"

subsection \<open>An engine for examples\<close>

text \<open>An engine that accepts every move; its position encoding is the list of the moves
  played, in long algebraic notation, each followed by a space. It knows one game.\<close>

definition demo_move :: "string \<Rightarrow> string \<Rightarrow> string \<Rightarrow> chess_move" where
  "demo_move f g s = \<lparr> from_sq = f, to_sq = g, promotion = Undefined, san = s, lan = f @ g \<rparr>"

definition demo_pgn :: string where
  "demo_pgn = ''1. e4 e5 2. Nf3''"

definition demo_history :: "chess_move list" where
  "demo_history =
     [demo_move ''e2'' ''e4'' ''e4'', demo_move ''e7'' ''e5'' ''e5'', demo_move ''g1'' ''f3'' ''Nf3'']"

definition plies_played :: "string \<Rightarrow> nat" where
  "plies_played p = length (filter (\<lambda>c. c = CHR '' '') p)"

definition demo_engine :: "string engine" where
  "demo_engine =
     \<lparr> e_reset = [],
       e_loadPgn = (\<lambda>pgn. if pgn = demo_pgn then Some demo_history else None),
       e_load = (\<lambda>f. f),
       e_fen = (\<lambda>p. p),
       e_turn = (\<lambda>p. if even (plies_played p) then White else Black),
       e_moveNumber = (\<lambda>p. plies_played p div 2 + 1),
       e_move = (\<lambda>p m. Some (p @ lan m @ '' '')),
       e_moveLan = (\<lambda>p l. Some (p @ l @ '' '')) \<rparr>"

definition demo_tree :: tree where
  "demo_tree = snd (buildFromPGN demo_engine demo_pgn constructor)"

subsection \<open>An engine that rejects moves\<close>

text \<open>
  A second engine for examples. It enforces one rule: early in a game the side to move
  moves a piece from its own half of the board, White from ranks 1 to 4, Black from ranks
  5 to 8; any other move raises. Besides the example game it knows a game that starts
  from a position given in the headers, with Black to move:
  \<^verbatim>\<open>[SetUp "1"]\<close>, \<^verbatim>\<open>[FEN "rnbqkbnr/pppppppp/8/8/4P3/8/PPPP1PPP/RNBQKBNR b KQkq - 0 1"]\<close>,
  an empty line, \<^verbatim>\<open>1... e5 2. Nf3\<close>.
\<close>

definition setup_pgn :: string where
  "setup_pgn =
     ''[SetUp '' @ [CHR 0x22] @ ''1'' @ [CHR 0x22] @ '']'' @ [CHR 0x0A]
     @ ''[FEN '' @ [CHR 0x22] @ ''rnbqkbnr/pppppppp/8/8/4P3/8/PPPP1PPP/RNBQKBNR b KQkq - 0 1''
     @ [CHR 0x22] @ '']'' @ [CHR 0x0A, CHR 0x0A]
     @ ''1... e5 2. Nf3''"

definition setup_history :: "chess_move list" where
  "setup_history = [demo_move ''e7'' ''e5'' ''e5'', demo_move ''g1'' ''f3'' ''Nf3'']"

definition own_half :: "string \<Rightarrow> string \<Rightarrow> bool" where
  "own_half p sq =
     (if even (plies_played p) then sq \<noteq> [] \<and> last sq \<in> set ''1234''
      else sq \<noteq> [] \<and> last sq \<in> set ''5678'')"

definition strict_engine :: "string engine" where
  "strict_engine =
     \<lparr> e_reset = [],
       e_loadPgn = (\<lambda>pgn. if pgn = demo_pgn then Some demo_history
                           else if pgn = setup_pgn then Some setup_history else None),
       e_load = (\<lambda>f. f),
       e_fen = (\<lambda>p. p),
       e_turn = (\<lambda>p. if even (plies_played p) then White else Black),
       e_moveNumber = (\<lambda>p. plies_played p div 2 + 1),
       e_move = (\<lambda>p m. if own_half p (from_sq m) then Some (p @ lan m @ '' '') else None),
       e_moveLan = (\<lambda>p l. if own_half p (take 2 l) then Some (p @ l @ '' '') else None) \<rparr>"

definition strict_tree :: tree where
  "strict_tree = snd (buildFromPGN strict_engine demo_pgn constructor)"

subsection \<open>Well-formed trees\<close>

text \<open>
  Identifiers are built from a move number, a side letter, a move text and, for a
  variation or after a clash, the counter. \<open>id_ok c k\<close>: \<open>k\<close> is \<open>root\<close>, or has the
  three underscores of an identifier without counter, or ends in an underscore and a
  counter value that has been handed out (at most \<open>c\<close>).
\<close>

definition underscores :: "string \<Rightarrow> nat" where
  "underscores s = count_list s CHR ''_''"

definition id_ok :: "nat \<Rightarrow> string \<Rightarrow> bool" where
  "id_ok c k \<longleftrightarrow>
     k = ''root'' \<or> underscores k = 3
     \<or> (\<exists>b n. k = b @ ''_'' @ show_nat n \<and> n \<le> c)"

text \<open>
  The structural invariant of a tree: the mainline is not empty and names distinct
  objects; every mainline node is registered in the index under its own identifier; every
  index entry names an allocated node with that identifier, and the identifier is well
  formed for the current counter; children are allocated nodes.
\<close>

definition tree_inv :: "tree \<Rightarrow> bool" where
  "tree_inv t \<longleftrightarrow>
     mainline t \<noteq> [] \<and> distinct (mainline t)
   \<and> (\<forall>r \<in> set (mainline t). r < length (heap t) \<and> nodeMap t (id_n (heap t ! r)) = Some r)
   \<and> (\<forall>k r. nodeMap t k = Some r \<longrightarrow>
          r < length (heap t) \<and> id_n (heap t ! r) = k \<and> id_ok (idCounter t) k)
   \<and> (\<forall>r < length (heap t). \<forall>c \<in> set (children (heap t ! r)). c < length (heap t))"

text \<open>
  The tree states a caller can reach: a fresh tree, then any sequence of builds,
  insertions, classification updates and navigation calls, whatever their outcome. Move
  texts come from the rules engine; standard algebraic notation has no underscore, and
  that is all that is assumed of them.
\<close>

inductive reachable :: "'p engine \<Rightarrow> tree \<Rightarrow> bool" for E :: "'p engine" where
  new: "reachable E constructor"
| build: "reachable E t \<Longrightarrow>
          (\<forall>h. e_loadPgn E pgn = Some h \<longrightarrow> (\<forall>m \<in> set h. CHR ''_'' \<notin> set (san m))) \<Longrightarrow>
          reachable E (snd (buildFromPGN E pgn t))"
| add: "reachable E t \<Longrightarrow> CHR ''_'' \<notin> set (san mv) \<Longrightarrow>
        reachable E (snd (addMove E mv pid t))"
| classify: "reachable E t \<Longrightarrow> reachable E (updateClassification nodeId a t)"
| navigate: "reachable E t \<Longrightarrow> reachable E (snd (navigateTo nodeId t))"

text \<open>The example game with one variation: after 1. e4 e5, the move Nc3 instead of
  Nf3.\<close>

definition demo_var_tree :: tree where
  "demo_var_tree =
     snd (addMove demo_engine (demo_move ''b1'' ''c3'' ''Nc3'') ''move_1_b_e5'' demo_tree)"

section \<open>The build loop\<close>

lemma half_move_number_ply: "half_move_number mn w = ply_number (ply_no mn w)"
  by (simp add: half_move_number_def ply_number_def ply_no_def)

lemma ply_no_step: "ply_no (if w then mn else mn + 1) (\<not> w) = Suc (ply_no mn w)"
  by (simp add: ply_no_def)

text \<open>One round of the loop either raises and leaves the tree as it is, or appends one
  node to the store, to the mainline and to the index, and goes on.\<close>

lemma build_loop_Cons:
  "build_loop E cd (mv # rest) idx mn w pos t = (Throw, t) \<or>
   (\<exists>n pos'. id_n n = base_id ''move'' mn w (san mv)
      \<and> moveNumber n = Some (ply_number (ply_no mn w))
      \<and> move n = Some mv \<and> isMainline n \<and> children n = [] \<and> parentId n = None
      \<and> build_loop E cd (mv # rest) idx mn w pos t =
          build_loop E cd rest (idx + 1) (if w then mn else mn + 1) (\<not> w) pos'
            (t\<lparr>heap := heap t @ [n], mainline := mainline t @ [length (heap t)],
               nodeMap := (nodeMap t)(base_id ''move'' mn w (san mv) \<mapsto> length (heap t)),
               final := Some (length (heap t))\<rparr>))"
proof (cases "find_clock cd idx")
  case Throw
  then show ?thesis by simp
next
  case (Return clockInfo)
  show ?thesis
  proof (cases "e_moveLan E pos (lan mv)")
    case None
    with Return show ?thesis by simp
  next
    case (Some pos')
    define n0 where "n0 = \<lparr> id_n = base_id ''move'' mn w (san mv),
                moveNumber = Some (half_move_number mn w),
                san_n = Some (san mv), move = Some mv, fen = None,
                children = [], isMainline = True,
                parentIndex = Some (int (length (mainline t)) - 1), parentId = None,
                clock_n = None, classification = None, evaluatedMove = None,
                evalScore = None, evalType = None \<rparr>"
    define n where "n = (case clockInfo of None \<Rightarrow> n0 | Some c \<Rightarrow> n0\<lparr>clock_n := Some (clock c)\<rparr>)
                          \<lparr>fen := Some (e_fen E pos')\<rparr>"
    have fields: "id_n n = base_id ''move'' mn w (san mv)"
      "moveNumber n = Some (ply_number (ply_no mn w))"
      "move n = Some mv" "isMainline n" "children n = []" "parentId n = None"
      by (cases clockInfo; simp add: n_def n0_def half_move_number_ply)+
    have "build_loop E cd (mv # rest) idx mn w pos t =
          build_loop E cd rest (idx + 1) (if w then mn else mn + 1) (\<not> w) pos'
            (t\<lparr>heap := heap t @ [n], mainline := mainline t @ [length (heap t)],
               nodeMap := (nodeMap t)(base_id ''move'' mn w (san mv) \<mapsto> length (heap t)),
               final := Some (length (heap t))\<rparr>)"
      unfolding n_def n0_def using Return Some by (simp add: Let_def)
    with fields show ?thesis by blast
  qed
qed

lemma build_loop_shape:
  "build_loop E cd h idx mn w pos t = (out, t') \<Longrightarrow>
   \<exists>ns. heap t' = heap t @ ns
      \<and> mainline t' = mainline t @ [length (heap t) ..< length (heap t) + length ns]
      \<and> (out = Return () \<longrightarrow> length ns = length h)
      \<and> map moveNumber ns = map (\<lambda>j. Some (ply_number (ply_no mn w + j))) [0..<length ns]
      \<and> currentNode t' = currentNode t \<and> currentIndex t' = currentIndex t
      \<and> idCounter t' = idCounter t"
proof (induction h arbitrary: idx mn w pos t)
  case Nil
  then show ?case by (intro exI[of _ "[]"]) auto
next
  case (Cons mv rest)
  from build_loop_Cons[of E cd mv rest idx mn w pos t] show ?case
  proof (elim disjE exE conjE)
    assume "build_loop E cd (mv # rest) idx mn w pos t = (Throw, t)"
    with Cons.prems show ?thesis by (intro exI[of _ "[]"]) auto
  next
    fix n pos'
    define t1 where "t1 = t\<lparr>heap := heap t @ [n], mainline := mainline t @ [length (heap t)],
               nodeMap := (nodeMap t)(base_id ''move'' mn w (san mv) \<mapsto> length (heap t)),
               final := Some (length (heap t))\<rparr>"
    assume mnn: "moveNumber n = Some (ply_number (ply_no mn w))"
      and "build_loop E cd (mv # rest) idx mn w pos t =
          build_loop E cd rest (idx + 1) (if w then mn else mn + 1) (\<not> w) pos'
            (t\<lparr>heap := heap t @ [n], mainline := mainline t @ [length (heap t)],
               nodeMap := (nodeMap t)(base_id ''move'' mn w (san mv) \<mapsto> length (heap t)),
               final := Some (length (heap t))\<rparr>)"
    with Cons.prems
    have "build_loop E cd rest (idx + 1) (if w then mn else mn + 1) (\<not> w) pos' t1 = (out, t')"
      by (simp add: t1_def)
    from Cons.IH[OF this] obtain ns where
      ns: "heap t' = heap t1 @ ns"
          "mainline t' = mainline t1 @ [length (heap t1) ..< length (heap t1) + length ns]"
          "out = Return () \<longrightarrow> length ns = length rest"
          "map moveNumber ns = map (\<lambda>j. Some (ply_number (Suc (ply_no mn w) + j))) [0..<length ns]"
          "currentNode t' = currentNode t1" "currentIndex t' = currentIndex t1"
          "idCounter t' = idCounter t1"
      unfolding ply_no_step by blast
    have upt: "[length (heap t) ..< length (heap t) + length (n # ns)]
               = length (heap t) # [length (heap t1) ..< length (heap t1) + length ns]"
      by (simp add: t1_def upt_conv_Cons del: upt_Suc)
    have mns: "map moveNumber (n # ns)
               = map (\<lambda>j. Some (ply_number (ply_no mn w + j))) [0..<length (n # ns)]"
    proof -
      have "[0..<length (n # ns)] = 0 # map Suc [0..<length ns]"
        by (simp add: upt_conv_Cons map_Suc_upt del: upt_Suc)
      then show ?thesis using ns(4) mnn by (simp add: comp_def)
    qed
    show ?thesis
      using ns mns upt by (intro exI[of _ "n # ns"]) (simp add: t1_def)
  qed
qed

lemma build_loop_returns:
  "replay_lan E pos h \<noteq> None \<Longrightarrow> fst (build_loop E [] h idx mn w pos t) = Return ()"
  by (induction h arbitrary: idx mn w pos t) (auto simp: Let_def split: option.splits)

lemma no_clock_matches:
  "rx_scan clockRegex (moveText_of pgn) 0 = [] \<Longrightarrow> extractClockAnnotations pgn = []"
  by (simp add: extractClockAnnotations_def)

text \<open>What a build that ran to its end leaves: the old store, the new root, one node per
  ply.\<close>

lemma buildFromPGN_shape:
  assumes "buildFromPGN E pgn t = (Return h, t')"
  shows "e_loadPgn E pgn = Some h
       \<and> (\<exists>ns. length ns = length h
            \<and> heap t' = heap t @ root_node None (Some (e_fen E (e_reset E))) # ns
            \<and> mainline t' = length (heap t) # [Suc (length (heap t)) ..< Suc (length (heap t)) + length h]
            \<and> map moveNumber ns = map (\<lambda>j. Some (ply_number (2 + j))) [0..<length h]
            \<and> currentNode t' = Some (length (heap t)) \<and> currentIndex t' = 0)"
proof -
  obtain h' where h': "e_loadPgn E pgn = Some h'"
    using assms by (cases "e_loadPgn E pgn") (auto simp: buildFromPGN_def)
  define t1 where "t1 = t\<lparr>heap := heap t @ [root_node None (Some (e_fen E (e_reset E)))],
                     mainline := [length (heap t)], nodeMap := [''root'' \<mapsto> length (heap t)],
                     currentNode := Some (length (heap t)), currentIndex := 0\<rparr>"
  obtain out t2 where bl:
    "build_loop E (extractClockAnnotations pgn) h' 0 1 True (e_reset E) t1 = (out, t2)"
    by (cases "build_loop E (extractClockAnnotations pgn) h' 0 1 True (e_reset E) t1") auto
  from assms h' bl have res: "out = Return ()" "h' = h" "t' = t2\<lparr>currentNode := mainline0 t2\<rparr>"
    by (auto simp: buildFromPGN_def Let_def t1_def split: outcome.splits)
  from build_loop_shape[OF bl] res obtain ns where
    ns: "heap t2 = heap t1 @ ns"
        "mainline t2 = mainline t1 @ [length (heap t1) ..< length (heap t1) + length ns]"
        "length ns = length h"
        "map moveNumber ns = map (\<lambda>j. Some (ply_number (ply_no 1 True + j))) [0..<length ns]"
        "currentIndex t2 = currentIndex t1"
    by auto
  have ml: "mainline t2 = length (heap t) # [Suc (length (heap t)) ..< Suc (length (heap t)) + length h]"
    using ns(2,3) by (simp add: t1_def)
  then have "mainline0 t2 = Some (length (heap t))"
    by (simp add: mainline0_def)
  with ns ml res h' show ?thesis
    by (simp add: t1_def ply_no_def)
qed

section \<open>Unknown identifiers\<close>

text \<open>
  Claim C8. An identifier that the node index does not hold is a soft miss everywhere:
  \<open>addMove\<close> returns \<open>null\<close> and leaves the tree as it is, \<open>updateClassification\<close>
  does nothing, \<open>getPathToNode\<close> returns the empty list; none of them raises. The same
  holds of \<open>navigateTo\<close> and \<open>getMovesToNode\<close>.
\<close>

theorem unknown_id_soft_miss:
  assumes "nodeMap t i = None"
  shows "addMove E mv i t = (Return None, t)
       \<and> updateClassification i a t = t
       \<and> getPathToNode t i = Some []
       \<and> navigateTo i t = (None, t)
       \<and> getMovesToNode t i = Some []"
  using assms
  by (simp add: addMove_def updateClassification_def getPathToNode_def navigateTo_def
        getMovesToNode_def)

theorem unknown_id_soft_miss_witness:
  "nodeMap constructor ''move_1_w_e4'' = None
   \<and> addMove demo_engine (demo_move ''e2'' ''e4'' ''e4'') ''move_1_w_e4'' constructor
       = (Return None, constructor)
   \<and> updateClassification ''move_1_w_e4'' \<lparr>classification_type = ''best'', lines = None\<rparr> constructor
       = constructor
   \<and> getPathToNode constructor ''move_1_w_e4'' = Some []"
proof -
  have h: "nodeMap constructor ''move_1_w_e4'' = None"
    by (simp add: constructor_def)
  show ?thesis
    using h unknown_id_soft_miss[OF h, of demo_engine "demo_move ''e2'' ''e4'' ''e4''"
                                   "\<lparr>classification_type = ''best'', lines = None\<rparr>"]
    by simp
qed

section \<open>The root's move number\<close>

text \<open>
  Claim C9 says that the root carries no move number in every tree state. The root that
  \<open>buildFromPGN\<close> makes has none, but the root of a freshly constructed tree has
  \<open>moveNumber\<close> 1.
\<close>

theorem constructor_root_moveNumber:
  "mainline0 constructor = Some 0 \<and> id_n (heap constructor ! 0) = ''root''
   \<and> moveNumber (heap constructor ! 0) = Some 1"
  by (simp add: constructor_def mainline0_def root_node_def)

lemma buildFromPGN_root_moveNumber:
  assumes "buildFromPGN E pgn t = (Return h, t')"
  shows "\<exists>r. mainline0 t' = Some r \<and> moveNumber (heap t' ! r) = None"
proof -
  from buildFromPGN_shape[OF assms] obtain ns where
    "heap t' = heap t @ root_node None (Some (e_fen E (e_reset E))) # ns"
    "mainline t' = length (heap t) # [Suc (length (heap t)) ..< Suc (length (heap t)) + length h]"
    by blast
  then show ?thesis
    by (simp add: mainline0_def root_node_def)
qed

section \<open>The mainline that buildFromPGN makes\<close>

text \<open>
  Claim C3 as stated, for every notation string that the engine parses, fails. A game
  that starts from a position given in its headers is parsed into its plies, but
  \<open>buildFromPGN\<close> replays them from the standard starting position: it resets the
  engine, and counts from move 1 with White to move. In the example Black moves first;
  the engine rejects the first ply, \<open>buildFromPGN\<close> raises, and the mainline is the
  root alone although the game has two plies.
\<close>

theorem buildFromPGN_setup_counterexample:
  "rx_scan clockRegex (moveText_of setup_pgn) 0 = []
   \<and> e_loadPgn strict_engine setup_pgn = Some setup_history
   \<and> length setup_history = 2
   \<and> fst (buildFromPGN strict_engine setup_pgn constructor) = Throw
   \<and> length (mainline (snd (buildFromPGN strict_engine setup_pgn constructor))) = 1"
  by code_simp

text \<open>
  Claim C3, amended. A notation string without time annotations (the clock expression
  matches nowhere in the move text) that the engine parses into \<open>N\<close> plies, and whose
  plies the engine accepts one after the other from the standard starting position:
  \<open>buildFromPGN\<close> returns, the mainline has \<open>N + 1\<close> entries, and the
  \<open>moveNumber\<close> of the node after the root at position \<open>j\<close> (from 0) is
  \<open>j div 2 + 1\<close> for White's plies (even \<open>j\<close>) and that plus one half for Black's:
  1, 1.5, 2, 2.5, ...
\<close>

theorem buildFromPGN_mainline_numbers:
  assumes "rx_scan clockRegex (moveText_of pgn) 0 = []"
      and "e_loadPgn E pgn = Some h"
      and "replay_lan E (e_reset E) h \<noteq> None"
  shows "\<exists>t'. buildFromPGN E pgn t = (Return h, t')
            \<and> length (mainline t') = length h + 1
            \<and> map (\<lambda>r. moveNumber (heap t' ! r)) (tl (mainline t'))
                = map (\<lambda>j. Some (of_nat (j div 2 + 1) + (if even j then 0 else 1 / 2)))
                      [0..<length h]"
proof -
  define t1 where "t1 = t\<lparr>heap := heap t @ [root_node None (Some (e_fen E (e_reset E)))],
                     mainline := [length (heap t)], nodeMap := [''root'' \<mapsto> length (heap t)],
                     currentNode := Some (length (heap t)), currentIndex := 0\<rparr>"
  obtain out t2 where bl: "build_loop E [] h 0 1 True (e_reset E) t1 = (out, t2)"
    by (cases "build_loop E [] h 0 1 True (e_reset E) t1") auto
  with build_loop_returns[OF assms(3), of 0 1 True t1] have out: "out = Return ()"
    by simp
  have run: "buildFromPGN E pgn t = (Return h, t2\<lparr>currentNode := mainline0 t2\<rparr>)"
    using bl out assms(2) no_clock_matches[OF assms(1)]
    by (simp add: buildFromPGN_def Let_def t1_def)
  from buildFromPGN_shape[OF run] obtain ns where
    ns: "length ns = length h"
        "heap (t2\<lparr>currentNode := mainline0 t2\<rparr>)
           = heap t @ root_node None (Some (e_fen E (e_reset E))) # ns"
        "mainline (t2\<lparr>currentNode := mainline0 t2\<rparr>)
           = length (heap t) # [Suc (length (heap t)) ..< Suc (length (heap t)) + length h]"
        "map moveNumber ns = map (\<lambda>j. Some (ply_number (2 + j))) [0..<length h]"
    by blast
  define t' where "t' = t2\<lparr>currentNode := mainline0 t2\<rparr>"
  have sel: "heap t' = heap t2" "mainline t' = mainline t2"
    by (simp_all add: t'_def)
  have ml: "mainline t2 = length (heap t) # [Suc (length (heap t)) ..< Suc (length (heap t)) + length h]"
    using ns(3) by simp
  have tl_ml: "tl (mainline t2) = [Suc (length (heap t)) ..< Suc (length (heap t)) + length h]"
    unfolding ml by (rule list.sel)
  have len: "length (tl (mainline t2)) = length h"
    unfolding tl_ml by (simp del: upt_Suc)
  have nth: "tl (mainline t2) ! i = Suc (length (heap t)) + i" if "i < length h" for i
    unfolding tl_ml using that by (simp del: upt_Suc)
  have "map (\<lambda>r. moveNumber (heap t2 ! r)) (tl (mainline t2)) = map moveNumber ns"
  proof (rule nth_equalityI)
    show "length (map (\<lambda>r. moveNumber (heap t2 ! r)) (tl (mainline t2))) = length (map moveNumber ns)"
      using len ns(1) by simp
  next
    fix i assume "i < length (map (\<lambda>r. moveNumber (heap t2 ! r)) (tl (mainline t2)))"
    then have i: "i < length h" using len by simp
    have "heap t2 ! (Suc (length (heap t)) + i) = ns ! i"
      using ns(2) by (simp add: nth_append)
    then show "map (\<lambda>r. moveNumber (heap t2 ! r)) (tl (mainline t2)) ! i = map moveNumber ns ! i"
      using i ns(1) len nth[OF i] by simp
  qed
  also have "\<dots> = map (\<lambda>j. Some (of_nat (j div 2 + 1) + (if even j then 0 else 1 / 2))) [0..<length h]"
    unfolding ns(4) by (rule map_cong) (auto simp: ply_number_def)
  finally have numbers:
    "map (\<lambda>r. moveNumber (heap t' ! r)) (tl (mainline t'))
       = map (\<lambda>j. Some (of_nat (j div 2 + 1) + (if even j then 0 else 1 / 2))) [0..<length h]"
    unfolding sel .
  have length: "length (mainline t') = length h + 1"
    unfolding sel ml by (simp del: upt_Suc)
  from run have "buildFromPGN E pgn t = (Return h, t')"
    by (simp add: t'_def)
  with length numbers show ?thesis
    by blast
qed

theorem buildFromPGN_mainline_numbers_witness:
  "rx_scan clockRegex (moveText_of demo_pgn) 0 = []
   \<and> e_loadPgn demo_engine demo_pgn = Some demo_history
   \<and> replay_lan demo_engine (e_reset demo_engine) demo_history \<noteq> None
   \<and> (\<exists>t'. buildFromPGN demo_engine demo_pgn constructor = (Return demo_history, t')
          \<and> length (mainline t') = 4
          \<and> map (\<lambda>r. moveNumber (heap t' ! r)) (tl (mainline t')) = [Some 1, Some (3 / 2), Some 2])"
proof -
  have h1: "rx_scan clockRegex (moveText_of demo_pgn) 0 = []"
    by code_simp
  have h2: "e_loadPgn demo_engine demo_pgn = Some demo_history"
    by (simp add: demo_engine_def)
  have h3: "replay_lan demo_engine (e_reset demo_engine) demo_history \<noteq> None"
    by (simp add: demo_engine_def demo_history_def)
  have l: "length demo_history = 3"
    by (simp add: demo_history_def)
  have "map (\<lambda>j. Some (of_nat (j div 2 + 1) + (if even j then 0 else 1 / 2))) [0..<3]
        = [Some 1, Some (3 / 2), Some (2::rat)]"
    by (simp add: upt_rec numeral_3_eq_3)
  with buildFromPGN_mainline_numbers[OF h1 h2 h3, of constructor] h1 h2 h3 l show ?thesis
    by simp
qed

section \<open>The cursor after a build\<close>



section \<open>Clock annotations\<close>

text \<open>
  Claim C7. On the move text \<^verbatim>\<open>1. e4 {[%clk 0:05:00]} e5 {[%clk 0:04:58]} 2. Nf3\<close> the
  extractor yields two records and no more: ply 0, white, \<open>0:05:00\<close> and ply 1, black,
  \<open>0:04:58\<close>. The array has no entry for ply 2.
\<close>

theorem extractClockAnnotations_example:
  "extractClockAnnotations ''1. e4 {[%clk 0:05:00]} e5 {[%clk 0:04:58]} 2. Nf3'' =
     [Some \<lparr>moveIndex = 0, color = White, clock = ''0:05:00''\<rparr>,
      Some \<lparr>moveIndex = 1, color = Black, clock = ''0:04:58''\<rparr>]"
  by code_simp

text \<open>The same game with header lines before the move text: the headers are stripped and
  the records are the same.\<close>

lemma extractClockAnnotations_example_with_headers:
  "extractClockAnnotations
     (''[Event '' @ [CHR 0x22] @ ''Casual'' @ [CHR 0x22] @ '']'' @ [CHR 0x0A]
      @ ''[Result '' @ [CHR 0x22] @ ''*'' @ [CHR 0x22] @ '']'' @ [CHR 0x0A, CHR 0x0A]
      @ ''1. e4 {[%clk 0:05:00]} e5 {[%clk 0:04:58]} 2. Nf3'') =
     [Some \<lparr>moveIndex = 0, color = White, clock = ''0:05:00''\<rparr>,
      Some \<lparr>moveIndex = 1, color = Black, clock = ''0:04:58''\<rparr>]"
  by code_simp

section \<open>Identifiers\<close>

lemma digit_char_code: "d < 10 \<Longrightarrow> of_char (digit_char d) = 48 + d"
  by (simp add: digit_char_def)

lemma digit_char_not_underscore: "d < 10 \<Longrightarrow> digit_char d \<noteq> CHR ''_''"
proof
  assume d: "d < 10" and "digit_char d = CHR ''_''"
  then have "(of_char (digit_char d) :: nat) = of_char (CHR ''_'')" by simp
  with d show False by (simp add: digit_char_code)
qed

lemma digit_char_inj: "d < 10 \<Longrightarrow> e < 10 \<Longrightarrow> digit_char d = digit_char e \<Longrightarrow> d = e"
proof -
  assume d: "d < 10" and e: "e < 10" and "digit_char d = digit_char e"
  then have "(of_char (digit_char d) :: nat) = of_char (digit_char e)" by simp
  with d e show ?thesis by (simp add: digit_char_code)
qed

lemma show_nat_nonempty: "show_nat n \<noteq> []"
  by (subst show_nat.simps) simp

lemma show_nat_no_underscore: "CHR ''_'' \<notin> set (show_nat n)"
proof (induction n rule: show_nat.induct)
  case (1 n)
  show ?case
  proof (cases "n < 10")
    case True
    then show ?thesis
      using digit_char_not_underscore[of n] by (subst show_nat.simps) auto
  next
    case False
    have "n mod 10 < 10" by simp
    from digit_char_not_underscore[OF this] "1.IH"[OF False] False show ?thesis
      by (subst show_nat.simps) auto
  qed
qed

lemma show_nat_inj: "show_nat n = show_nat m \<Longrightarrow> n = m"
proof (induction n arbitrary: m rule: show_nat.induct)
  case (1 n)
  show ?case
  proof (cases "n < 10")
    case n: True
    show ?thesis
    proof (cases "m < 10")
      case True
      with n "1.prems" show ?thesis
        by (simp add: show_nat.simps[of n] show_nat.simps[of m] digit_char_inj)
    next
      case False
      with n "1.prems" show_nat_nonempty[of "m div 10"] show ?thesis
        by (simp add: show_nat.simps[of n] show_nat.simps[of m])
    qed
  next
    case n: False
    show ?thesis
    proof (cases "m < 10")
      case True
      with n "1.prems" show_nat_nonempty[of "n div 10"] show ?thesis
        by (simp add: show_nat.simps[of n] show_nat.simps[of m])
    next
      case False
      with n "1.prems" have eq: "show_nat (n div 10) = show_nat (m div 10)"
        "digit_char (n mod 10) = digit_char (m mod 10)"
        by (simp_all add: show_nat.simps[of n] show_nat.simps[of m])
      from "1.IH"[OF n eq(1)] have "n div 10 = m div 10" .
      moreover from eq(2) have "n mod 10 = m mod 10"
        by (intro digit_char_inj) simp_all
      ultimately show ?thesis
        by (metis div_mult_mod_eq)
    qed
  qed
qed

lemma underscores_append [simp]: "underscores (a @ b) = underscores a + underscores b"
  by (simp add: underscores_def)

lemma underscores_Cons [simp]:
  "underscores (c # s) = (if c = CHR ''_'' then 1 else 0) + underscores s"
  by (simp add: underscores_def)

lemma underscores_Nil [simp]: "underscores [] = 0"
  by (simp add: underscores_def)

lemma underscores_zero: "CHR ''_'' \<notin> set s \<Longrightarrow> underscores s = 0"
  by (induction s) auto

lemma underscores_show_nat [simp]: "underscores (show_nat n) = 0"
  by (simp add: underscores_zero show_nat_no_underscore)

lemma underscores_sanitize: "CHR ''_'' \<notin> set s \<Longrightarrow> underscores (sanitize s) = 0"
  by (induction s) (auto simp: sanitize_def)

lemma underscores_base_id:
  "CHR ''_'' \<notin> set kind \<Longrightarrow> CHR ''_'' \<notin> set s \<Longrightarrow> underscores (base_id kind mn w s) = 3"
  by (simp add: base_id_def underscores_zero underscores_sanitize side_letter_def)

lemma split_at_underscore:
  "CHR ''_'' \<notin> set a \<Longrightarrow> CHR ''_'' \<notin> set b \<Longrightarrow> a @ CHR ''_'' # x = b @ CHR ''_'' # y
   \<Longrightarrow> a = b \<and> x = y"
proof (induction a arbitrary: b)
  case Nil
  then show ?case by (cases b) auto
next
  case (Cons a0 a)
  then show ?case by (cases b) auto
qed

lemma underscores_base_id_ge: "3 \<le> underscores (base_id kind mn w s)"
  by (simp add: base_id_def side_letter_def)

lemma base_id_move_inj:
  assumes "base_id ''move'' mn w s = base_id ''move'' mn' w' s'"
  shows "mn = mn' \<and> w = w'"
proof -
  from assms have "show_nat mn @ CHR ''_'' # (side_letter w @ ''_'' @ sanitize s)
                 = show_nat mn' @ CHR ''_'' # (side_letter w' @ ''_'' @ sanitize s')"
    by (simp add: base_id_def)
  from split_at_underscore[OF show_nat_no_underscore show_nat_no_underscore this]
  have "show_nat mn = show_nat mn'"
    and "side_letter w @ ''_'' @ sanitize s = side_letter w' @ ''_'' @ sanitize s'"
    by simp_all
  then show ?thesis
    by (auto dest: show_nat_inj simp: side_letter_def split: if_splits)
qed

lemma base_id_not_root: "base_id ''move'' mn w s \<noteq> ''root''"
  by (simp add: base_id_def)

lemma counter_suffix_inj:
  assumes "a @ ''_'' @ show_nat n = b @ ''_'' @ show_nat m"
  shows "n = m"
proof -
  from assms have "rev (a @ ''_'' @ show_nat n) = rev (b @ ''_'' @ show_nat m)" by simp
  then have "rev (show_nat n) @ CHR ''_'' # rev a = rev (show_nat m) @ CHR ''_'' # rev b"
    by simp
  from split_at_underscore[OF _ _ this] have "rev (show_nat n) = rev (show_nat m)"
    using show_nat_no_underscore by simp
  then show ?thesis by (simp add: show_nat_inj)
qed

lemma id_ok_mono: "id_ok c k \<Longrightarrow> c \<le> c' \<Longrightarrow> id_ok c' k"
  unfolding id_ok_def by (auto intro: le_trans)

lemma id_ok_suffixed: "n \<le> c \<Longrightarrow> id_ok c (b @ ''_'' @ show_nat n)"
  unfolding id_ok_def by blast

lemma suffix_fresh:
  assumes "id_ok c k" and "3 \<le> underscores b" and "c < n"
  shows "k \<noteq> b @ ''_'' @ show_nat n"
proof
  assume eq: "k = b @ ''_'' @ show_nat n"
  then have four: "4 \<le> underscores k" using assms(2) by simp
  from assms(1) consider "k = ''root''" | "underscores k = 3"
    | b' n' where "k = b' @ ''_'' @ show_nat n'" "n' \<le> c"
    unfolding id_ok_def by blast
  then show False
  proof cases
    case 1
    with four show False by simp
  next
    case 2
    with four show False by simp
  next
    case 3
    with eq have "b' @ ''_'' @ show_nat n' = b @ ''_'' @ show_nat n" by simp
    then have "n' = n" by (rule counter_suffix_inj)
    with 3 assms(3) show False by simp
  qed
qed


section \<open>Keeping the invariant\<close>

lemma tree_inv_frame:
  assumes "tree_inv t"
    and "length (heap t') = length (heap t)"
    and "\<And>r. r < length (heap t) \<Longrightarrow> id_n (heap t' ! r) = id_n (heap t ! r)"
    and "\<And>r. r < length (heap t) \<Longrightarrow> children (heap t' ! r) = children (heap t ! r)"
    and "mainline t' = mainline t" and "nodeMap t' = nodeMap t"
    and "idCounter t \<le> idCounter t'"
  shows "tree_inv t'"
  using assms unfolding tree_inv_def
  by auto (blast intro: id_ok_mono)

lemma tree_inv_push_main:
  assumes inv: "tree_inv t"
    and heap: "heap t' = heap t @ [n]"
    and ml: "mainline t' = mainline t @ [length (heap t)]"
    and nm: "nodeMap t' = (nodeMap t)(id_n n \<mapsto> length (heap t))"
    and fresh: "nodeMap t (id_n n) = None"
    and ch: "children n = []"
    and ok: "id_ok (idCounter t') (id_n n)"
    and cnt: "idCounter t \<le> idCounter t'"
  shows "tree_inv t'"
proof -
  from inv have
    i1: "mainline t \<noteq> []" "distinct (mainline t)"
    and i2: "\<And>r. r \<in> set (mainline t) \<Longrightarrow> r < length (heap t) \<and> nodeMap t (id_n (heap t ! r)) = Some r"
    and i3: "\<And>k r. nodeMap t k = Some r \<Longrightarrow> r < length (heap t) \<and> id_n (heap t ! r) = k \<and> id_ok (idCounter t) k"
    and i4: "\<And>r c. r < length (heap t) \<Longrightarrow> c \<in> set (children (heap t ! r)) \<Longrightarrow> c < length (heap t)"
    unfolding tree_inv_def by blast+
  have a: "mainline t' \<noteq> []" using ml by simp
  have b: "distinct (mainline t')"
    using i1(2) i2 ml by auto
  have c: "r < length (heap t') \<and> nodeMap t' (id_n (heap t' ! r)) = Some r"
    if "r \<in> set (mainline t')" for r
  proof (cases "r = length (heap t)")
    case True
    then show ?thesis using heap nm by simp
  next
    case False
    with that ml have r: "r \<in> set (mainline t)" by simp
    from i2[OF r] fresh have "id_n (heap t ! r) \<noteq> id_n n" by auto
    with i2[OF r] show ?thesis using heap nm by (simp add: nth_append)
  qed
  have d: "r < length (heap t') \<and> id_n (heap t' ! r) = k \<and> id_ok (idCounter t') k"
    if "nodeMap t' k = Some r" for k r
  proof (cases "k = id_n n")
    case True
    with that nm have "r = length (heap t)" by simp
    with True ok show ?thesis using heap by simp
  next
    case False
    with that nm have "nodeMap t k = Some r" by simp
    from i3[OF this] cnt show ?thesis
      using heap by (auto simp: nth_append intro: id_ok_mono)
  qed
  have e: "c < length (heap t')"
    if "r < length (heap t')" "c \<in> set (children (heap t' ! r))" for r c
  proof (cases "r < length (heap t)")
    case True
    with that i4[of r c] show ?thesis using heap by (simp add: nth_append)
  next
    case False
    with that heap have "r = length (heap t)" by simp
    with that ch heap show ?thesis by simp
  qed
  show ?thesis
    unfolding tree_inv_def using a b c d e by blast
qed

lemma tree_inv_push_var:
  assumes inv: "tree_inv t"
    and pr: "pr < length (heap t)"
    and heap: "heap t' = (heap t)[pr := (heap t ! pr)\<lparr>children := children (heap t ! pr) @ [length (heap t)]\<rparr>] @ [n]"
    and ml: "mainline t' = mainline t"
    and nm: "nodeMap t' = (nodeMap t)(id_n n \<mapsto> length (heap t))"
    and fresh: "nodeMap t (id_n n) = None"
    and ch: "children n = []"
    and ok: "id_ok (idCounter t') (id_n n)"
    and cnt: "idCounter t \<le> idCounter t'"
  shows "tree_inv t'"
proof -
  from inv have
    i1: "mainline t \<noteq> []" "distinct (mainline t)"
    and i2: "\<And>r. r \<in> set (mainline t) \<Longrightarrow> r < length (heap t) \<and> nodeMap t (id_n (heap t ! r)) = Some r"
    and i3: "\<And>k r. nodeMap t k = Some r \<Longrightarrow> r < length (heap t) \<and> id_n (heap t ! r) = k \<and> id_ok (idCounter t) k"
    and i4: "\<And>r c. r < length (heap t) \<Longrightarrow> c \<in> set (children (heap t ! r)) \<Longrightarrow> c < length (heap t)"
    unfolding tree_inv_def by blast+
  have len: "length (heap t') = Suc (length (heap t))" using heap by simp
  have old_id: "id_n (heap t' ! r) = id_n (heap t ! r)" if "r < length (heap t)" for r
    using that heap by (cases "r = pr") (simp_all add: nth_append)
  have old_ch: "set (children (heap t' ! r)) \<subseteq> insert (length (heap t)) (set (children (heap t ! r)))"
    if "r < length (heap t)" for r
    using that heap by (cases "r = pr") (auto simp: nth_append)
  have new: "heap t' ! length (heap t) = n" using heap by (simp add: nth_append)
  have a: "mainline t' \<noteq> []" "distinct (mainline t')" using ml i1 by simp_all
  have c: "r < length (heap t') \<and> nodeMap t' (id_n (heap t' ! r)) = Some r"
    if "r \<in> set (mainline t')" for r
  proof -
    from that ml have r: "r \<in> set (mainline t)" by simp
    from i2[OF r] fresh have "id_n (heap t ! r) \<noteq> id_n n" by auto
    with i2[OF r] old_id[of r] show ?thesis using len nm by simp
  qed
  have d: "r < length (heap t') \<and> id_n (heap t' ! r) = k \<and> id_ok (idCounter t') k"
    if "nodeMap t' k = Some r" for k r
  proof (cases "k = id_n n")
    case True
    with that nm have "r = length (heap t)" by simp
    with True ok new len show ?thesis by simp
  next
    case False
    with that nm have "nodeMap t k = Some r" by simp
    from i3[OF this] cnt old_id[of r] len show ?thesis
      by (auto intro: id_ok_mono)
  qed
  have e: "c < length (heap t')"
    if "r < length (heap t')" "c \<in> set (children (heap t' ! r))" for r c
  proof (cases "r < length (heap t)")
    case True
    with that old_ch[OF True] i4[of r c] len show ?thesis by auto
  next
    case False
    with that len have "r = length (heap t)" by simp
    with that ch new show ?thesis by simp
  qed
  show ?thesis
    unfolding tree_inv_def using a c d e by blast
qed

lemma tree_inv_constructor: "tree_inv constructor"
  by (auto simp: tree_inv_def constructor_def root_node_def id_ok_def split: if_splits)


section \<open>What addMove does\<close>

text \<open>The five ways a call with a known parent can go.\<close>

lemma addMove_cases [consumes 2, case_names existing load_fails move_fails main var]:
  assumes "nodeMap t pid = Some pr" and "addMove E mv pid t = (out, t')"
  obtains
    (existing) ex where "findExistingMove t pr mv = Some ex" "out = Return (Some ex)" "t' = t"
  | (load_fails) "findExistingMove t pr mv = None" "out = Throw" "t' = t"
  | (move_fails) "findExistingMove t pr mv = None" "out = Throw"
      "t' = t\<lparr>idCounter := idCounter t + 1\<rparr>"
  | (main) n where "findExistingMove t pr mv = None"
      "isMainline (heap t ! pr)"
      "getNodeIndex t (heap t ! pr) = int (length (mainline t)) - 1"
      "out = Return (Some (length (heap t)))"
      "move n = Some mv" "children n = []" "isMainline n" "parentId n = Some pid"
      "(\<exists>mn w. id_n n = base_id ''move'' mn w (san mv) \<and> nodeMap t (id_n n) = None)
       \<or> (\<exists>mn w. id_n n = base_id ''move'' mn w (san mv) @ ''_'' @ show_nat (idCounter t + 1))"
      "t' = t\<lparr>idCounter := idCounter t + 1, heap := heap t @ [n],
              mainline := mainline t @ [length (heap t)], final := Some (length (heap t)),
              nodeMap := (nodeMap t)(id_n n \<mapsto> length (heap t))\<rparr>"
  | (var) n where "findExistingMove t pr mv = None"
      "\<not> (isMainline (heap t ! pr)
          \<and> getNodeIndex t (heap t ! pr) = int (length (mainline t)) - 1)"
      "out = Return (Some (length (heap t)))"
      "move n = Some mv" "children n = []" "\<not> isMainline n" "parentId n = Some pid"
      "\<exists>mn w. id_n n = base_id ''var'' mn w (san mv) @ ''_'' @ show_nat (idCounter t + 1)"
      "t' = t\<lparr>idCounter := idCounter t + 1,
              heap := (heap t)[pr := (heap t ! pr)\<lparr>children := children (heap t ! pr) @ [length (heap t)]\<rparr>] @ [n],
              nodeMap := (nodeMap t)(id_n n \<mapsto> length (heap t))\<rparr>"
proof (cases "findExistingMove t pr mv")
  case (Some ex)
  with assms have "out = Return (Some ex)" "t' = t"
    by (auto simp: addMove_def)
  with Some show ?thesis by (rule existing)
next
  case None
  note fe = None
  show ?thesis
  proof (cases "e_load E (fen (heap t ! pr))")
    case None
    with fe assms have "out = Throw" "t' = t"
      by (auto simp: addMove_def Let_def)
    with fe show ?thesis by (rule load_fails)
  next
    case (Some pos)
    note ld = Some
    show ?thesis
    proof (cases "e_move E pos mv")
      case None
      with fe ld assms have "out = Throw" "t' = t\<lparr>idCounter := idCounter t + 1\<rparr>"
        by (auto simp: addMove_def Let_def)
      with fe show ?thesis by (rule move_fails)
    next
      case (Some pos')
      define w where "w = (e_turn E pos = White)"
      define mn where "mn = e_moveNumber E pos"
      define isMain where "isMain \<longleftrightarrow> isMainline (heap t ! pr)
          \<and> getNodeIndex t (heap t ! pr) = int (length (mainline t)) - 1"
      define nodeId0 where "nodeId0 = base_id (if isMain then ''move'' else ''var'') mn w (san mv)
                                @ (if isMain then [] else ''_'' @ show_nat (idCounter t + 1))"
      define nodeId where "nodeId = (if isMain \<and> nodeMap t nodeId0 \<noteq> None
                                then nodeId0 @ ''_'' @ show_nat (idCounter t + 1) else nodeId0)"
      define n where "n = \<lparr> id_n = nodeId, moveNumber = Some (half_move_number mn w),
                                   san_n = Some (san mv), move = Some mv, fen = Some (e_fen E pos'),
                                   children = [], isMainline = isMain,
                                   parentIndex = (if isMain then Some (getNodeIndex t (heap t ! pr)) else None),
                                   parentId = Some pid,
                                   clock_n = None, classification = None, evaluatedMove = None,
                                   evalScore = None, evalType = None \<rparr>"
      have im: "(isMainline (heap t ! pr)
          \<and> getNodeIndex t (heap t ! pr) = int (length (mainline t)) - 1) = isMain"
        by (simp add: isMain_def)
      have im2: "(isMainline (heap t ! pr)
          \<and> getNodeIndex t (heap t ! pr) = int (length (mainline t)) - 1 \<and> P) = (isMain \<and> P)" for P
        by (auto simp: isMain_def)
      have fields: "move n = Some mv" "children n = []" "isMainline n = isMain"
        "parentId n = Some pid" "id_n n = nodeId"
        by (simp_all add: n_def)
      show ?thesis
      proof (cases isMain)
        case True
        have "addMove E mv pid t = (Return (Some (length (heap t))),
                t\<lparr>idCounter := idCounter t + 1, heap := heap t @ [n],
                  mainline := mainline t @ [length (heap t)], final := Some (length (heap t)),
                  nodeMap := (nodeMap t)(id_n n \<mapsto> length (heap t))\<rparr>)"
          unfolding n_def nodeId_def nodeId0_def w_def mn_def
          using assms(1) fe ld Some True
          by (simp add: addMove_def Let_def im im2)
        with assms(2) have r: "out = Return (Some (length (heap t)))"
          "t' = t\<lparr>idCounter := idCounter t + 1, heap := heap t @ [n],
                  mainline := mainline t @ [length (heap t)], final := Some (length (heap t)),
                  nodeMap := (nodeMap t)(id_n n \<mapsto> length (heap t))\<rparr>"
          by simp_all
        have ids: "(\<exists>mn w. id_n n = base_id ''move'' mn w (san mv) \<and> nodeMap t (id_n n) = None)
           \<or> (\<exists>mn w. id_n n = base_id ''move'' mn w (san mv) @ ''_'' @ show_nat (idCounter t + 1))"
          using True by (auto simp: fields nodeId_def nodeId0_def)
        from True have "isMainline (heap t ! pr)"
          "getNodeIndex t (heap t ! pr) = int (length (mainline t)) - 1"
          by (simp_all add: isMain_def)
        then show ?thesis
          using fe r fields True ids by (intro main[of n]) simp_all
      next
        case False
        have "addMove E mv pid t = (Return (Some (length (heap t))),
                t\<lparr>idCounter := idCounter t + 1,
                  heap := (heap t)[pr := (heap t ! pr)\<lparr>children := children (heap t ! pr) @ [length (heap t)]\<rparr>] @ [n],
                  nodeMap := (nodeMap t)(id_n n \<mapsto> length (heap t))\<rparr>)"
          unfolding n_def nodeId_def nodeId0_def w_def mn_def
          using assms(1) fe ld Some False
          by (simp add: addMove_def Let_def im im2)
        with assms(2) have r: "out = Return (Some (length (heap t)))"
          "t' = t\<lparr>idCounter := idCounter t + 1,
                  heap := (heap t)[pr := (heap t ! pr)\<lparr>children := children (heap t ! pr) @ [length (heap t)]\<rparr>] @ [n],
                  nodeMap := (nodeMap t)(id_n n \<mapsto> length (heap t))\<rparr>"
          by simp_all
        have ids: "\<exists>mn w. id_n n = base_id ''var'' mn w (san mv) @ ''_'' @ show_nat (idCounter t + 1)"
          using False by (auto simp: fields nodeId_def nodeId0_def)
        from False have "\<not> (isMainline (heap t ! pr)
          \<and> getNodeIndex t (heap t ! pr) = int (length (mainline t)) - 1)"
          by (simp add: isMain_def)
        then show ?thesis
          using fe r fields False ids by (intro var[of n]) simp_all
      qed
    qed
  qed
qed

text \<open>With a known parent and a move that the engine accepts at the parent's position,
  the call returns a node.\<close>

lemma addMove_returns:
  assumes "nodeMap t pid = Some pr"
    and "e_load E (fen (heap t ! pr)) = Some pos"
    and "e_move E pos mv = Some pos'"
  shows "\<exists>n t1. addMove E mv pid t = (Return (Some n), t1)"
  using assms by (auto simp: addMove_def Let_def split: option.splits)

section \<open>Reachable trees are well formed\<close>

lemma fresh_suffixed:
  assumes "tree_inv t" and "3 \<le> underscores b"
  shows "nodeMap t (b @ ''_'' @ show_nat (idCounter t + 1)) = None"
proof (rule ccontr)
  assume "nodeMap t (b @ ''_'' @ show_nat (idCounter t + 1)) \<noteq> None"
  then obtain r where "nodeMap t (b @ ''_'' @ show_nat (idCounter t + 1)) = Some r" by blast
  with assms(1) have "id_ok (idCounter t) (b @ ''_'' @ show_nat (idCounter t + 1))"
    unfolding tree_inv_def by blast
  from suffix_fresh[OF this assms(2), of "idCounter t + 1"] show False by simp
qed

lemma addMove_tree_inv:
  assumes inv: "tree_inv t" and san: "CHR ''_'' \<notin> set (san mv)"
    and run: "addMove E mv pid t = (out, t')"
  shows "tree_inv t'"
proof (cases "nodeMap t pid")
  case None
  with run show ?thesis using inv by (simp add: addMove_def)
next
  case (Some pr)
  from inv Some have pr: "pr < length (heap t)"
    unfolding tree_inv_def by blast
  from Some run show ?thesis
  proof (cases rule: addMove_cases)
    case (existing ex)
    with inv show ?thesis by simp
  next
    case load_fails
    with inv show ?thesis by simp
  next
    case move_fails
    show ?thesis
      by (rule tree_inv_frame[OF inv]) (simp_all add: move_fails)
  next
    case (main n)
    have us: "underscores (base_id ''move'' mn w (san mv)) = 3" for mn w
      using san by (simp add: underscores_base_id)
    from main(9) have fresh: "nodeMap t (id_n n) = None"
      using fresh_suffixed[OF inv underscores_base_id_ge] by auto
    from main(9) have ok: "id_ok (idCounter t + 1) (id_n n)"
    proof (elim disjE exE conjE)
      fix mn w assume "id_n n = base_id ''move'' mn w (san mv)"
      with us[of mn w] show ?thesis by (simp add: id_ok_def)
    next
      fix mn w
      assume "id_n n = base_id ''move'' mn w (san mv) @ ''_'' @ show_nat (idCounter t + 1)"
      with id_ok_suffixed[of "idCounter t + 1" "idCounter t + 1"] show ?thesis
        by simp
    qed
    have f: "heap t' = heap t @ [n]" "mainline t' = mainline t @ [length (heap t)]"
      "nodeMap t' = (nodeMap t)(id_n n \<mapsto> length (heap t))" "idCounter t' = idCounter t + 1"
      by (simp_all add: main(10))
    show ?thesis
      using ok by (intro tree_inv_push_main[OF inv f(1) f(2) f(3) fresh main(6)]) (simp_all add: f(4))
  next
    case (var n)
    from var(8) have fresh: "nodeMap t (id_n n) = None"
      using fresh_suffixed[OF inv underscores_base_id_ge] by auto
    from var(8) have ok: "id_ok (idCounter t + 1) (id_n n)"
    proof (elim exE)
      fix mn w
      assume "id_n n = base_id ''var'' mn w (san mv) @ ''_'' @ show_nat (idCounter t + 1)"
      with id_ok_suffixed[of "idCounter t + 1" "idCounter t + 1"] show ?thesis
        by simp
    qed
    have f: "heap t' = (heap t)[pr := (heap t ! pr)\<lparr>children := children (heap t ! pr) @ [length (heap t)]\<rparr>] @ [n]"
      "mainline t' = mainline t"
      "nodeMap t' = (nodeMap t)(id_n n \<mapsto> length (heap t))" "idCounter t' = idCounter t + 1"
      by (simp_all add: var(9))
    show ?thesis
      using ok by (intro tree_inv_push_var[OF inv pr f(1) f(2) f(3) fresh var(5)]) (simp_all add: f(4))
  qed
qed

lemma build_loop_tree_inv:
  assumes "tree_inv t"
    and "\<forall>k r. nodeMap t k = Some r \<longrightarrow>
           k = ''root'' \<or> (\<exists>mn' w' s. k = base_id ''move'' mn' w' s \<and> ply_no mn' w' < ply_no mn w)"
    and "\<forall>m \<in> set h. CHR ''_'' \<notin> set (san m)"
    and "build_loop E cd h idx mn w pos t = (out, t')"
  shows "tree_inv t'"
  using assms
proof (induction h arbitrary: idx mn w pos t)
  case Nil
  then show ?case by simp
next
  case (Cons mv rest)
  from build_loop_Cons[of E cd mv rest idx mn w pos t] show ?case
  proof (elim disjE exE conjE)
    assume "build_loop E cd (mv # rest) idx mn w pos t = (Throw, t)"
    with Cons.prems show ?thesis by simp
  next
    fix n pos'
    define t1 where "t1 = t\<lparr>heap := heap t @ [n], mainline := mainline t @ [length (heap t)],
               nodeMap := (nodeMap t)(base_id ''move'' mn w (san mv) \<mapsto> length (heap t)),
               final := Some (length (heap t))\<rparr>"
    assume n: "id_n n = base_id ''move'' mn w (san mv)" "children n = []"
      and "build_loop E cd (mv # rest) idx mn w pos t =
          build_loop E cd rest (idx + 1) (if w then mn else mn + 1) (\<not> w) pos'
            (t\<lparr>heap := heap t @ [n], mainline := mainline t @ [length (heap t)],
               nodeMap := (nodeMap t)(base_id ''move'' mn w (san mv) \<mapsto> length (heap t)),
               final := Some (length (heap t))\<rparr>)"
    with Cons.prems(4)
    have run: "build_loop E cd rest (idx + 1) (if w then mn else mn + 1) (\<not> w) pos' t1 = (out, t')"
      by (simp add: t1_def)
    have fresh: "nodeMap t (id_n n) = None"
    proof (rule ccontr)
      assume "nodeMap t (id_n n) \<noteq> None"
      then obtain r where "nodeMap t (base_id ''move'' mn w (san mv)) = Some r"
        using n(1) by auto
      with Cons.prems(2) base_id_not_root[of mn w "san mv"]
      obtain mn' w' s where "base_id ''move'' mn w (san mv) = base_id ''move'' mn' w' s"
        "ply_no mn' w' < ply_no mn w"
        by blast
      with base_id_move_inj[of mn w "san mv" mn' w' s] show False by simp
    qed
    have us: "underscores (id_n n) = 3"
      using Cons.prems(3) n(1) by (simp add: underscores_base_id)
    have ok: "id_ok (idCounter t1) (id_n n)"
      using us by (simp add: id_ok_def)
    have nm1: "nodeMap t1 = (nodeMap t)(id_n n \<mapsto> length (heap t))"
      by (simp add: t1_def n(1))
    have inv1: "tree_inv t1"
      by (rule tree_inv_push_main[OF Cons.prems(1) _ _ nm1 fresh n(2) ok])
         (simp_all add: t1_def)
    have ids1: "\<forall>k r. nodeMap t1 k = Some r \<longrightarrow>
           k = ''root'' \<or> (\<exists>mn' w' s. k = base_id ''move'' mn' w' s
              \<and> ply_no mn' w' < ply_no (if w then mn else mn + 1) (\<not> w))"
    proof (intro allI impI)
      fix k r assume k: "nodeMap t1 k = Some r"
      show "k = ''root'' \<or> (\<exists>mn' w' s. k = base_id ''move'' mn' w' s
              \<and> ply_no mn' w' < ply_no (if w then mn else mn + 1) (\<not> w))"
      proof (cases "k = base_id ''move'' mn w (san mv)")
        case True
        then show ?thesis unfolding ply_no_step by auto
      next
        case False
        with k have "nodeMap t k = Some r" by (simp add: t1_def)
        with Cons.prems(2) show ?thesis unfolding ply_no_step by (meson less_Suc_eq)
      qed
    qed
    from Cons.prems(3) have "\<forall>m \<in> set rest. CHR ''_'' \<notin> set (san m)" by simp
    from Cons.IH[OF inv1 ids1 this run] show ?thesis .
  qed
qed

lemma buildFromPGN_tree_inv:
  assumes inv: "tree_inv t"
    and san: "\<forall>h. e_loadPgn E pgn = Some h \<longrightarrow> (\<forall>m \<in> set h. CHR ''_'' \<notin> set (san m))"
  shows "tree_inv (snd (buildFromPGN E pgn t))"
proof (cases "e_loadPgn E pgn")
  case None
  with inv show ?thesis by (simp add: buildFromPGN_def)
next
  case (Some h)
  define t1 where "t1 = t\<lparr>heap := heap t @ [root_node None (Some (e_fen E (e_reset E)))],
                     mainline := [length (heap t)], nodeMap := [''root'' \<mapsto> length (heap t)],
                     currentNode := Some (length (heap t)), currentIndex := 0\<rparr>"
  obtain out t2 where bl:
    "build_loop E (extractClockAnnotations pgn) h 0 1 True (e_reset E) t1 = (out, t2)"
    by (cases "build_loop E (extractClockAnnotations pgn) h 0 1 True (e_reset E) t1") auto
  from inv have ch: "\<And>r c. r < length (heap t) \<Longrightarrow> c \<in> set (children (heap t ! r)) \<Longrightarrow> c < length (heap t)"
    unfolding tree_inv_def by blast
  have inv1: "tree_inv t1"
    unfolding tree_inv_def
  proof (intro conjI allI impI ballI)
    fix r c assume "r < length (heap t1)" "c \<in> set (children (heap t1 ! r))"
    then show "c < length (heap t1)"
      using ch[of r c] by (cases "r < length (heap t)") (auto simp: t1_def nth_append root_node_def)
  qed (auto simp: t1_def root_node_def id_ok_def split: if_splits)
  have ids1: "\<forall>k r. nodeMap t1 k = Some r \<longrightarrow>
           k = ''root'' \<or> (\<exists>mn' w' s. k = base_id ''move'' mn' w' s \<and> ply_no mn' w' < ply_no 1 True)"
    by (auto simp: t1_def split: if_splits)
  from san Some have "\<forall>m \<in> set h. CHR ''_'' \<notin> set (san m)" by simp
  from build_loop_tree_inv[OF inv1 ids1 this bl] have inv2: "tree_inv t2" .
  have "tree_inv (t2\<lparr>currentNode := mainline0 t2\<rparr>)"
    by (rule tree_inv_frame[OF inv2]) simp_all
  with inv2 Some bl show ?thesis
    by (cases out) (simp_all add: buildFromPGN_def Let_def t1_def)
qed

lemma updateClassification_tree_inv:
  assumes "tree_inv t"
  shows "tree_inv (updateClassification nodeId a t)"
proof (cases "nodeMap t nodeId")
  case None
  with assms show ?thesis by (simp add: updateClassification_def)
next
  case (Some r)
  with assms have "r < length (heap t)"
    unfolding tree_inv_def by blast
  then show ?thesis
    by (intro tree_inv_frame[OF assms])
       (auto simp: updateClassification_def Some Let_def nth_list_update
             split: option.splits)
qed

lemma navigateTo_tree_inv:
  assumes "tree_inv t"
  shows "tree_inv (snd (navigateTo nodeId t))"
  by (rule tree_inv_frame[OF assms])
     (auto simp: navigateTo_def Let_def split: option.splits)

lemma reachable_tree_inv: "reachable E t \<Longrightarrow> tree_inv t"
proof (induction rule: reachable.induct)
  case new
  show ?case by (rule tree_inv_constructor)
next
  case (build t pgn)
  then show ?case by (intro buildFromPGN_tree_inv)
next
  case (add t mv pid)
  then show ?case
    using addMove_tree_inv[of t mv E pid "fst (addMove E mv pid t)" "snd (addMove E mv pid t)"]
    by simp
next
  case (classify t nodeId a)
  then show ?case by (intro updateClassification_tree_inv)
next
  case (navigate t nodeId)
  then show ?case by (intro navigateTo_tree_inv)
qed

section \<open>Positions on the mainline\<close>

lemma findIndex_range:
  "findIndex P xs = -1 \<or>
   (0 \<le> findIndex P xs \<and> findIndex P xs < int (length xs) \<and> P (xs ! nat (findIndex P xs)))"
proof (induction xs)
  case Nil
  show ?case by simp
next
  case (Cons x xs)
  then show ?case
    by (cases "P x") (auto simp: Let_def nat_add_distrib)
qed

lemma findIndex_first:
  "i < length xs \<Longrightarrow> P (xs ! i) \<Longrightarrow> (\<forall>j<i. \<not> P (xs ! j)) \<Longrightarrow> findIndex P xs = int i"
proof (induction xs arbitrary: i)
  case Nil
  then show ?case by simp
next
  case (Cons x xs)
  show ?case
  proof (cases i)
    case 0
    with Cons.prems show ?thesis by simp
  next
    case (Suc k)
    with Cons.prems have "\<not> P x" by auto
    moreover from Cons.prems Suc have "findIndex P xs = int k"
      by (intro Cons.IH) auto
    ultimately show ?thesis using Suc by (simp add: Let_def)
  qed
qed

lemma findIndex_cong:
  "(\<And>x. x \<in> set xs \<Longrightarrow> P x = Q x) \<Longrightarrow> findIndex P xs = findIndex Q xs"
  by (induction xs) (auto simp: Let_def)

lemma findIndex_append:
  "findIndex P xs \<noteq> -1 \<Longrightarrow> findIndex P (xs @ ys) = findIndex P xs"
  by (induction xs) (auto simp: Let_def)

lemma find_snoc:
  "List.find P (xs @ [x]) =
     (case List.find P xs of Some y \<Rightarrow> Some y | None \<Rightarrow> if P x then Some x else None)"
  by (induction xs) auto

lemma tree_inv_ids_distinct:
  assumes "tree_inv t" "i < length (mainline t)" "j < length (mainline t)"
    and "id_n (heap t ! (mainline t ! j)) = id_n (heap t ! (mainline t ! i))"
  shows "j = i"
proof -
  from assms(1) have d: "distinct (mainline t)"
    and m: "\<And>r. r \<in> set (mainline t) \<Longrightarrow> nodeMap t (id_n (heap t ! r)) = Some r"
    unfolding tree_inv_def by blast+
  from m[of "mainline t ! i"] m[of "mainline t ! j"] assms(2,3,4)
  have "mainline t ! j = mainline t ! i" by simp
  with d assms(2,3) show ?thesis by (simp add: nth_eq_iff_index_eq)
qed

lemma getNodeIndex_mainline:
  assumes "tree_inv t" "i < length (mainline t)"
  shows "getNodeIndex t (heap t ! (mainline t ! i)) = int i"
  unfolding getNodeIndex_def
proof (rule findIndex_first[OF assms(2)])
  show "id_n (heap t ! (mainline t ! i)) = id_n (heap t ! (mainline t ! i))" by simp
  show "\<forall>j<i. id_n (heap t ! (mainline t ! j)) \<noteq> id_n (heap t ! (mainline t ! i))"
  proof (intro allI impI notI)
    fix j assume j: "j < i"
      and eq: "id_n (heap t ! (mainline t ! j)) = id_n (heap t ! (mainline t ! i))"
    from j assms(2) have "j < length (mainline t)" by simp
    from tree_inv_ids_distinct[OF assms this eq] j show False by simp
  qed
qed

lemma mainline_successor_mem:
  assumes "mainline_successor t p mv = Some s"
  shows "s \<in> set (mainline t)"
proof -
  from assms have a: "getNodeIndex t p \<noteq> -1" "getNodeIndex t p + 1 < int (length (mainline t))"
    "s = mainline t ! nat (getNodeIndex t p + 1)"
    by (auto simp: mainline_successor_def Let_def split: if_splits)
  from a(1) findIndex_range[of "\<lambda>x. id_n (heap t ! x) = id_n p" "mainline t"]
  have "0 \<le> getNodeIndex t p" by (auto simp: getNodeIndex_def)
  with a(2) have "nat (getNodeIndex t p + 1) < length (mainline t)" by linarith
  with a(3) show ?thesis by simp
qed

lemma getNodeIndex_registered:
  assumes "tree_inv t" "nodeMap t k = Some r" "getNodeIndex t (heap t ! r) = int i"
  shows "i < length (mainline t) \<and> mainline t ! i = r"
proof -
  let ?P = "\<lambda>x. id_n (heap t ! x) = id_n (heap t ! r)"
  from assms(3) findIndex_range[of ?P "mainline t"]
  have i: "i < length (mainline t)" and p: "?P (mainline t ! i)"
    by (auto simp: getNodeIndex_def)
  from assms(1,2) have "id_n (heap t ! r) = k"
    unfolding tree_inv_def by blast
  moreover from assms(1) i have "nodeMap t (id_n (heap t ! (mainline t ! i))) = Some (mainline t ! i)"
    unfolding tree_inv_def by simp
  ultimately show ?thesis using p i assms(2) by simp
qed

lemma mainline_successor_frame:
  assumes "mainline t' = mainline t"
    and "\<And>x. x \<in> set (mainline t) \<Longrightarrow> id_n (heap t' ! x) = id_n (heap t ! x)"
    and "\<And>x. x \<in> set (mainline t) \<Longrightarrow> move (heap t' ! x) = move (heap t ! x)"
    and "id_n p' = id_n p" "isMainline p' = isMainline p"
  shows "mainline_successor t' p' mv = mainline_successor t p mv"
proof -
  have gi: "getNodeIndex t' p' = getNodeIndex t p"
    unfolding getNodeIndex_def assms(1)
    by (rule findIndex_cong) (simp add: assms(2,4))
  have "move (heap t' ! (mainline t ! nat (getNodeIndex t p + 1)))
        = move (heap t ! (mainline t ! nat (getNodeIndex t p + 1)))"
    if "getNodeIndex t p \<noteq> -1" "getNodeIndex t p + 1 < int (length (mainline t))"
  proof -
    from that findIndex_range[of "\<lambda>x. id_n (heap t ! x) = id_n p" "mainline t"]
    have "nat (getNodeIndex t p + 1) < length (mainline t)"
      by (auto simp: getNodeIndex_def)
    then show ?thesis by (intro assms(3)) simp
  qed
  then show ?thesis
    by (simp add: mainline_successor_def gi assms(1,5) Let_def)
qed

text \<open>Branch isolation under the invariant.\<close>

lemma addMove_branch:
  assumes inv: "tree_inv t" and p: "nodeMap t pid = Some pr" and nl: "pr \<noteq> last (mainline t)"
    and run: "addMove E mv pid t = (out, t')"
  shows "mainline t' = mainline t
       \<and> (\<forall>r. out = Return (Some r) \<and> length (heap t) \<le> r \<longrightarrow>
             children (heap t' ! pr) = children (heap t ! pr) @ [r]
           \<and> \<not> isMainline (heap t' ! r) \<and> r \<notin> set (mainline t'))"
proof -
  from inv have ne: "mainline t \<noteq> []"
    and ml: "\<And>r. r \<in> set (mainline t) \<Longrightarrow> r < length (heap t)"
    and nm: "\<And>k r. nodeMap t k = Some r \<Longrightarrow> r < length (heap t)"
    and ch: "\<And>r c. r < length (heap t) \<Longrightarrow> c \<in> set (children (heap t ! r)) \<Longrightarrow> c < length (heap t)"
    unfolding tree_inv_def by blast+
  from p run show ?thesis
  proof (cases rule: addMove_cases)
    case (existing ex)
    have "ex < length (heap t)"
    proof (cases "mainline_successor t (heap t ! pr) mv")
      case None
      with existing(1) have "ex \<in> set (children (heap t ! pr))"
        by (auto simp: findExistingMove_def find_Some_iff)
      with ch[OF nm[OF p]] show ?thesis by simp
    next
      case (Some s)
      with existing(1) have "s = ex" by (simp add: findExistingMove_def)
      with Some have "ex \<in> set (mainline t)"
        by (simp add: mainline_successor_mem)
      with ml show ?thesis by simp
    qed
    with existing show ?thesis by auto
  next
    case load_fails
    then show ?thesis by simp
  next
    case move_fails
    then show ?thesis by simp
  next
    case (main n)
    from ne have "int (length (mainline t)) - 1 = int (length (mainline t) - 1)"
      by (cases "mainline t") simp_all
    with main(3) have "getNodeIndex t (heap t ! pr) = int (length (mainline t) - 1)"
      by (simp only:)
    from getNodeIndex_registered[OF inv p this]
    have "mainline t ! (length (mainline t) - 1) = pr" by (rule conjunct2)
    with ne nl show ?thesis by (simp add: last_conv_nth)
  next
    case (var n)
    from nm[OF p] have pr: "pr < length (heap t)" .
    have "heap t' ! pr = (heap t ! pr)\<lparr>children := children (heap t ! pr) @ [length (heap t)]\<rparr>"
      using pr by (simp add: var(9) nth_append)
    moreover have "heap t' ! length (heap t) = n"
      by (simp add: var(9) nth_append)
    moreover have "length (heap t) \<notin> set (mainline t)"
      using ml by auto
    ultimately show ?thesis
      using var(3,6) by (simp add: var(9))
  qed
qed

text \<open>Idempotence under the invariant.\<close>

lemma addMove_twice:
  assumes inv: "tree_inv t"
    and p: "nodeMap t pid = Some pr"
    and run: "addMove E mv pid t = (Return res, t1)"
  shows "res \<noteq> None \<and> addMove E mv pid t1 = (Return res, t1)"
proof -
  from inv have ne: "mainline t \<noteq> []"
    and ml: "\<And>r. r \<in> set (mainline t) \<Longrightarrow> r < length (heap t)"
    and nm: "\<And>k r. nodeMap t k = Some r \<Longrightarrow> r < length (heap t)"
    and ch: "\<And>r c. r < length (heap t) \<Longrightarrow> c \<in> set (children (heap t ! r)) \<Longrightarrow> c < length (heap t)"
    unfolding tree_inv_def by blast+
  from nm[OF p] have pr: "pr < length (heap t)" .
  from p run show ?thesis
  proof (cases rule: addMove_cases)
    case (existing ex)
    from existing(2) have "res = Some ex" by simp
    with run existing(3) show ?thesis by simp
  next
    case load_fails
    then show ?thesis by simp
  next
    case move_fails
    then show ?thesis by simp
  next
    case (main n)
    from main(9) have fresh: "nodeMap t (id_n n) = None"
      using fresh_suffixed[OF inv underscores_base_id_ge] by auto
    with p have "id_n n \<noteq> pid" by auto
    then have p1: "nodeMap t1 pid = Some pr" using p by (simp add: main(10))
    have h1: "heap t1 ! x = heap t ! x" if "x < length (heap t)" for x
      using that by (simp add: main(10) nth_append)
    have new: "heap t1 ! length (heap t) = n" by (simp add: main(10) nth_append)
    let ?P = "\<lambda>x. id_n (heap t ! x) = id_n (heap t ! pr)"
    from main(3) ne have idx: "findIndex ?P (mainline t) = int (length (mainline t)) - 1"
      "findIndex ?P (mainline t) \<noteq> -1"
      by (cases "mainline t"; simp add: getNodeIndex_def)+
    have "getNodeIndex t1 (heap t ! pr)
          = findIndex (\<lambda>x. id_n (heap t1 ! x) = id_n (heap t ! pr)) (mainline t @ [length (heap t)])"
      by (simp add: getNodeIndex_def main(10))
    also have "\<dots> = findIndex (\<lambda>x. id_n (heap t1 ! x) = id_n (heap t ! pr)) (mainline t)"
    proof (rule findIndex_append)
      have "findIndex (\<lambda>x. id_n (heap t1 ! x) = id_n (heap t ! pr)) (mainline t) = findIndex ?P (mainline t)"
        by (rule findIndex_cong) (simp add: h1 ml)
      with idx(2) show "findIndex (\<lambda>x. id_n (heap t1 ! x) = id_n (heap t ! pr)) (mainline t) \<noteq> -1"
        by simp
    qed
    also have "\<dots> = findIndex ?P (mainline t)"
      by (rule findIndex_cong) (simp add: h1 ml)
    finally have gi: "getNodeIndex t1 (heap t ! pr) = int (length (mainline t)) - 1"
      using idx(1) by simp
    have ml1: "mainline t1 = mainline t @ [length (heap t)]"
      by (simp add: main(10))
    from ne have len: "0 < length (mainline t)" by simp
    have "mainline_successor t1 (heap t1 ! pr) mv = Some (length (heap t))"
      unfolding mainline_successor_def h1[OF pr] gi ml1 Let_def
      using main(2) len by (simp add: new main(5) same_move_def)
    then have fe1: "findExistingMove t1 pr mv = Some (length (heap t))"
      by (simp add: findExistingMove_def)
    from main(4) have res: "res = Some (length (heap t))" by simp
    from p1 fe1 show ?thesis
      unfolding res by (simp add: addMove_def)
  next
    case (var n)
    from var(8) have fresh: "nodeMap t (id_n n) = None"
      using fresh_suffixed[OF inv underscores_base_id_ge] by auto
    with p have "id_n n \<noteq> pid" by auto
    then have p1: "nodeMap t1 pid = Some pr" using p by (simp add: var(9))
    have hp: "heap t1 ! pr = (heap t ! pr)\<lparr>children := children (heap t ! pr) @ [length (heap t)]\<rparr>"
      using pr by (simp add: var(9) nth_append)
    have h_id: "id_n (heap t1 ! x) = id_n (heap t ! x)"
      and h_mv: "move (heap t1 ! x) = move (heap t ! x)" if "x < length (heap t)" for x
      using that by (cases "x = pr"; simp add: var(9) nth_append)+
    have new: "heap t1 ! length (heap t) = n" by (simp add: var(9) nth_append)
    have ml1: "mainline t1 = mainline t" by (simp add: var(9))
    have "mainline_successor t1 (heap t1 ! pr) mv = mainline_successor t (heap t ! pr) mv"
      by (rule mainline_successor_frame[OF ml1]) (simp_all add: h_id h_mv ml pr hp)
    moreover from var(1) have ms: "mainline_successor t (heap t ! pr) mv = None"
      and fd: "List.find (\<lambda>c. same_move (move (heap t ! c)) mv) (children (heap t ! pr)) = None"
      by (auto simp: findExistingMove_def Let_def split: option.splits)
    moreover have "List.find (\<lambda>c. same_move (move (heap t1 ! c)) mv)
                     (children (heap t ! pr) @ [length (heap t)]) = Some (length (heap t))"
    proof -
      have "\<not> same_move (move (heap t1 ! c)) mv" if "c \<in> set (children (heap t ! pr))" for c
        using that fd h_mv[OF ch[OF pr that]] by (simp add: find_None_iff)
      then have "List.find (\<lambda>c. same_move (move (heap t1 ! c)) mv) (children (heap t ! pr)) = None"
        by (simp add: find_None_iff)
      moreover have "same_move (move (heap t1 ! length (heap t))) mv"
        by (simp add: new var(4) same_move_def)
      ultimately show ?thesis
        by (simp add: find_snoc)
    qed
    ultimately have fe1: "findExistingMove t1 pr mv = Some (length (heap t))"
      by (simp add: findExistingMove_def hp)
    from var(3) have res: "res = Some (length (heap t))" by simp
    from p1 fe1 show ?thesis
      unfolding res by (simp add: addMove_def)
  qed
qed

text \<open>Navigation symmetry under the invariant.\<close>

lemma navigation_roundtrip:
  assumes inv: "tree_inv t" and n: "n \<in> set (mainline t)" and nr: "Some n \<noteq> mainline0 t"
  shows "\<exists>p t1 t2. navigateTo (id_n (heap t ! n)) t = (Some n, t1)
           \<and> getPreviousMove t1 = Return (Some p)
           \<and> navigateTo (id_n (heap t1 ! p)) t1 = (Some p, t2)
           \<and> getNextMove t2 = Some n"
proof -
  from n obtain i where i: "i < length (mainline t)" "mainline t ! i = n"
    by (auto simp: in_set_conv_nth)
  from nr i have i0: "0 < i"
    by (cases "mainline t"; cases i) (auto simp: mainline0_def)
  define p where "p = mainline t ! (i - 1)"
  from inv have reg: "\<And>r. r \<in> set (mainline t) \<Longrightarrow> nodeMap t (id_n (heap t ! r)) = Some r"
    unfolding tree_inv_def by blast
  have pin: "p \<in> set (mainline t)" using i i0 by (simp add: p_def)
  define t1 where "t1 = t\<lparr>currentNode := Some n, currentIndex := int i\<rparr>"
  define t2 where "t2 = t1\<lparr>currentNode := Some p, currentIndex := int (i - 1)\<rparr>"
  have gi: "getNodeIndex t' (heap t ! (mainline t ! j)) = int j"
    if "heap t' = heap t" "mainline t' = mainline t" "j < length (mainline t)" for t' j
    using getNodeIndex_mainline[OF inv that(3)] that(1,2) by (simp add: getNodeIndex_def)
  have nav1: "navigateTo (id_n (heap t ! n)) t = (Some n, t1)"
    using reg[OF n] gi[of "t\<lparr>currentNode := Some n\<rparr>" i] i
    by (simp add: navigateTo_def Let_def t1_def)
  have prev: "getPreviousMove t1 = Return (Some p)"
    using nr gi[of t1 i] i i0
    by (simp add: getPreviousMove_def t1_def mainline0_def Let_def p_def nat_diff_distrib)
  have nav2: "navigateTo (id_n (heap t1 ! p)) t1 = (Some p, t2)"
    using reg[OF pin] gi[of "t1\<lparr>currentNode := Some p\<rparr>" "i - 1"] i i0
    by (simp add: navigateTo_def Let_def t1_def t2_def p_def)
  have "getNextMove t2 = Some n"
    using gi[of t2 "i - 1"] i i0
    by (simp add: getNextMove_def t2_def t1_def Let_def p_def nat_add_distrib)
  with nav1 prev nav2 show ?thesis by blast
qed

text \<open>The path to a mainline node is the slice of the mainline after the root.\<close>

lemma getPathToNode_mainline:
  assumes "tree_inv t" and "i < length (mainline t)"
  shows "getPathToNode t (id_n (heap t ! (mainline t ! i))) = Some (drop 1 (take (i + 1) (mainline t)))"
proof -
  from assms have "nodeMap t (id_n (heap t ! (mainline t ! i))) = Some (mainline t ! i)"
    unfolding tree_inv_def by simp
  with getNodeIndex_mainline[OF assms] show ?thesis
    by (simp add: getPathToNode_def Let_def nat_add_distrib)
qed

section \<open>Insertion twice\<close>

text \<open>What a returning call returns is a node of the tree that carries the move: the
  mainline successor of the parent or one of its children.\<close>

lemma findExistingMove_found:
  assumes inv: "tree_inv t" and p: "nodeMap t pid = Some pr"
    and fe: "findExistingMove t pr mv = Some ex"
  shows "ex < length (heap t) \<and> same_move (move (heap t ! ex)) mv
       \<and> (ex \<in> set (mainline t) \<or> ex \<in> set (children (heap t ! pr)))"
proof -
  from inv have ml: "\<And>r. r \<in> set (mainline t) \<Longrightarrow> r < length (heap t)"
    and nm: "\<And>k r. nodeMap t k = Some r \<Longrightarrow> r < length (heap t)"
    and ch: "\<And>r c. r < length (heap t) \<Longrightarrow> c \<in> set (children (heap t ! r)) \<Longrightarrow> c < length (heap t)"
    unfolding tree_inv_def by blast+
  show ?thesis
  proof (cases "mainline_successor t (heap t ! pr) mv")
    case None
    with fe have "ex \<in> set (children (heap t ! pr))" "same_move (move (heap t ! ex)) mv"
      by (auto simp: findExistingMove_def find_Some_iff)
    with ch[OF nm[OF p]] show ?thesis by simp
  next
    case (Some s)
    with fe have s: "s = ex" by (simp add: findExistingMove_def)
    from Some have "same_move (move (heap t ! s)) mv"
      by (auto simp: mainline_successor_def Let_def split: if_splits)
    moreover from Some have "s \<in> set (mainline t)"
      by (rule mainline_successor_mem)
    ultimately show ?thesis using ml s by simp
  qed
qed

lemma addMove_result_node:
  assumes inv: "tree_inv t"
    and p: "nodeMap t pid = Some pr"
    and run: "addMove E mv pid t = (Return res, t1)"
  shows "\<exists>n. res = Some n \<and> n < length (heap t1) \<and> same_move (move (heap t1 ! n)) mv
           \<and> (n \<in> set (mainline t1) \<or> n \<in> set (children (heap t1 ! pr)))"
proof -
  from inv p have pr: "pr < length (heap t)"
    unfolding tree_inv_def by blast
  from p run show ?thesis
  proof (cases rule: addMove_cases)
    case (existing ex)
    from existing(2) have "res = Some ex" by simp
    with findExistingMove_found[OF inv p existing(1)] existing(3) show ?thesis by simp
  next
    case load_fails
    then show ?thesis by simp
  next
    case move_fails
    then show ?thesis by simp
  next
    case (main n)
    from main(4) have res: "res = Some (length (heap t))" by simp
    have "heap t1 ! length (heap t) = n" "length (heap t) < length (heap t1)"
      "length (heap t) \<in> set (mainline t1)"
      by (simp_all add: main(10) nth_append)
    with res main(5) show ?thesis by (simp add: same_move_def)
  next
    case (var n)
    from var(3) have res: "res = Some (length (heap t))" by simp
    have "heap t1 ! length (heap t) = n" "length (heap t) < length (heap t1)"
      by (simp_all add: var(9) nth_append)
    moreover have "length (heap t) \<in> set (children (heap t1 ! pr))"
      using pr by (simp add: var(9) nth_append)
    ultimately show ?thesis using res var(4) by (simp add: same_move_def)
  qed
qed

text \<open>
  Claim C4 as stated, for every move and every parent that the index holds, fails: the
  first call need not return a node. After 1. e4 e5 the engine rejects a move of the pawn
  from e7, and \<open>addMove\<close> raises with it; on a fresh tree the root is in the index, its
  position is \<open>null\<close>, and \<open>addMove\<close> raises on loading it.
\<close>

theorem addMove_raises_counterexample:
  "nodeMap strict_tree ''move_1_b_e5'' = Some 3
   \<and> fst (addMove strict_engine (demo_move ''e7'' ''e5'' ''e5'') ''move_1_b_e5'' strict_tree) = Throw
   \<and> nodeMap constructor ''root'' = Some 0
   \<and> fst (addMove strict_engine (demo_move ''e2'' ''e4'' ''e4'') ''root'' constructor) = Throw"
  by code_simp

text \<open>
  Claim C4, amended. In a reachable tree, for a parent identifier \<open>pid\<close> that the index
  holds and a move \<open>mv\<close> that is already there under that parent or that the engine
  accepts at the parent's position (which the engine loads): \<open>addMove mv pid\<close> returns
  a node \<open>n\<close> of the tree, which carries the move and is on the mainline or among the
  children of the parent; a second call returns the same node and leaves the whole tree as
  the first call left it. So the identifier returned is the same, and neither the mainline
  nor any list of children changes.
\<close>

theorem addMove_idempotent:
  assumes "reachable E t"
      and "nodeMap t pid = Some pr"
      and "(\<exists>ex. findExistingMove t pr mv = Some ex)
           \<or> (\<exists>pos pos'. e_load E (fen (heap t ! pr)) = Some pos \<and> e_move E pos mv = Some pos')"
  shows "\<exists>n t1. addMove E mv pid t = (Return (Some n), t1)
           \<and> n < length (heap t1)
           \<and> same_move (move (heap t1 ! n)) mv
           \<and> (n \<in> set (mainline t1) \<or> n \<in> set (children (heap t1 ! pr)))
           \<and> addMove E mv pid t1 = (Return (Some n), t1)"
proof -
  have inv: "tree_inv t" by (rule reachable_tree_inv[OF assms(1)])
  from assms(3) obtain n t1 where run: "addMove E mv pid t = (Return (Some n), t1)"
  proof
    assume "\<exists>ex. findExistingMove t pr mv = Some ex"
    then obtain ex where "findExistingMove t pr mv = Some ex" ..
    with assms(2) have "addMove E mv pid t = (Return (Some ex), t)"
      by (simp add: addMove_def)
    then show ?thesis by (rule that)
  next
    assume "\<exists>pos pos'. e_load E (fen (heap t ! pr)) = Some pos \<and> e_move E pos mv = Some pos'"
    then obtain pos pos' where "e_load E (fen (heap t ! pr)) = Some pos" "e_move E pos mv = Some pos'"
      by blast
    from addMove_returns[OF assms(2) this] show ?thesis using that by blast
  qed
  from addMove_result_node[OF inv assms(2) run] addMove_twice[OF inv assms(2) run] run
  show ?thesis by auto
qed

theorem addMove_idempotent_witness:
  "nodeMap demo_tree ''move_1_b_e5'' = Some 3
   \<and> e_load demo_engine (fen (heap demo_tree ! 3)) = Some ''e2e4 e7e5 ''
   \<and> e_move demo_engine ''e2e4 e7e5 '' (demo_move ''b1'' ''c3'' ''Nc3'') = Some ''e2e4 e7e5 b1c3 ''
   \<and> (\<exists>n t1. addMove demo_engine (demo_move ''b1'' ''c3'' ''Nc3'') ''move_1_b_e5'' demo_tree
                 = (Return (Some n), t1)
           \<and> n < length (heap t1)
           \<and> same_move (move (heap t1 ! n)) (demo_move ''b1'' ''c3'' ''Nc3'')
           \<and> (n \<in> set (mainline t1) \<or> n \<in> set (children (heap t1 ! 3)))
           \<and> addMove demo_engine (demo_move ''b1'' ''c3'' ''Nc3'') ''move_1_b_e5'' t1
                 = (Return (Some n), t1))"
proof -
  have "reachable demo_engine (snd (buildFromPGN demo_engine demo_pgn constructor))"
    by (rule reachable.build[OF reachable.new])
       (auto simp: demo_engine_def demo_history_def demo_move_def)
  then have h1: "reachable demo_engine demo_tree"
    by (simp add: demo_tree_def)
  have h2: "nodeMap demo_tree ''move_1_b_e5'' = Some 3"
    by code_simp
  have h3: "e_load demo_engine (fen (heap demo_tree ! 3)) = Some ''e2e4 e7e5 ''"
    by code_simp
  have h4: "e_move demo_engine ''e2e4 e7e5 '' (demo_move ''b1'' ''c3'' ''Nc3'') = Some ''e2e4 e7e5 b1c3 ''"
    by code_simp
  from h3 h4 have h5: "(\<exists>ex. findExistingMove demo_tree 3 (demo_move ''b1'' ''c3'' ''Nc3'') = Some ex)
           \<or> (\<exists>pos pos'. e_load demo_engine (fen (heap demo_tree ! 3)) = Some pos
                 \<and> e_move demo_engine pos (demo_move ''b1'' ''c3'' ''Nc3'') = Some pos')"
    by blast
  from addMove_idempotent[OF h1 h2 h5] h2 h3 h4 show ?thesis
    by simp
qed

section \<open>Insertion away from the tip\<close>

text \<open>
  Claim C5. In a reachable tree, a call of \<open>addMove\<close> whose parent is not the last node
  of the mainline leaves the mainline as it is, whatever the outcome of the call. A node
  that the call creates (a reference the store did not hold before) is appended to the
  children of the parent, is not marked mainline and is not on the mainline.
\<close>

theorem addMove_branch_isolation:
  assumes "reachable E t"
      and "nodeMap t pid = Some pr"
      and "pr \<noteq> last (mainline t)"
      and "addMove E mv pid t = (out, t')"
  shows "mainline t' = mainline t
       \<and> (\<forall>r. out = Return (Some r) \<and> length (heap t) \<le> r \<longrightarrow>
             children (heap t' ! pr) = children (heap t ! pr) @ [r]
           \<and> \<not> isMainline (heap t' ! r) \<and> r \<notin> set (mainline t'))"
  by (rule addMove_branch[OF reachable_tree_inv[OF assms(1)] assms(2,3,4)])

theorem addMove_branch_isolation_witness:
  "nodeMap demo_tree ''move_1_b_e5'' = Some 3
   \<and> last (mainline demo_tree) = 4
   \<and> length (heap demo_tree) = 5
   \<and> addMove demo_engine (demo_move ''b1'' ''c3'' ''Nc3'') ''move_1_b_e5'' demo_tree
       = (Return (Some 5), demo_var_tree)
   \<and> mainline demo_var_tree = mainline demo_tree
   \<and> children (heap demo_var_tree ! 3) = children (heap demo_tree ! 3) @ [5]
   \<and> \<not> isMainline (heap demo_var_tree ! 5)"
proof -
  have "reachable demo_engine (snd (buildFromPGN demo_engine demo_pgn constructor))"
    by (rule reachable.build[OF reachable.new])
       (auto simp: demo_engine_def demo_history_def demo_move_def)
  then have h1: "reachable demo_engine demo_tree"
    by (simp add: demo_tree_def)
  have h2: "nodeMap demo_tree ''move_1_b_e5'' = Some 3"
    by code_simp
  have l: "last (mainline demo_tree) = 4"
    by code_simp
  then have h3: "3 \<noteq> last (mainline demo_tree)"
    by simp
  have len: "length (heap demo_tree) = 5"
    by code_simp
  have "fst (addMove demo_engine (demo_move ''b1'' ''c3'' ''Nc3'') ''move_1_b_e5'' demo_tree)
        = Return (Some 5)"
    by code_simp
  then have h4: "addMove demo_engine (demo_move ''b1'' ''c3'' ''Nc3'') ''move_1_b_e5'' demo_tree
                 = (Return (Some 5), demo_var_tree)"
    by (simp add: demo_var_tree_def prod_eq_iff)
  from addMove_branch_isolation[OF h1 h2 h3 h4] h2 l len h4 show ?thesis
    by simp
qed

section \<open>Back and forth on the mainline\<close>

text \<open>
  Claim C6. In a reachable tree, for a node \<open>n\<close> of the mainline other than the root:
  with the cursor moved to \<open>n\<close>, \<open>getPreviousMove\<close> returns a node \<open>p\<close>, and with the
  cursor moved to \<open>p\<close>, \<open>getNextMove\<close> returns \<open>n\<close>. The cursor is moved with
  \<open>navigateTo\<close>.
\<close>

theorem navigation_symmetry:
  assumes "reachable E t"
      and "n \<in> set (mainline t)"
      and "Some n \<noteq> mainline0 t"
  shows "\<exists>p t1 t2. navigateTo (id_n (heap t ! n)) t = (Some n, t1)
           \<and> getPreviousMove t1 = Return (Some p)
           \<and> navigateTo (id_n (heap t1 ! p)) t1 = (Some p, t2)
           \<and> getNextMove t2 = Some n"
  by (rule navigation_roundtrip[OF reachable_tree_inv[OF assms(1)] assms(2,3)])

theorem navigation_symmetry_witness:
  "3 \<in> set (mainline demo_tree)
   \<and> Some 3 \<noteq> mainline0 demo_tree
   \<and> (\<exists>p t1 t2. navigateTo (id_n (heap demo_tree ! 3)) demo_tree = (Some 3, t1)
           \<and> getPreviousMove t1 = Return (Some p)
           \<and> navigateTo (id_n (heap t1 ! p)) t1 = (Some p, t2)
           \<and> getNextMove t2 = Some 3)"
proof -
  have "reachable demo_engine (snd (buildFromPGN demo_engine demo_pgn constructor))"
    by (rule reachable.build[OF reachable.new])
       (auto simp: demo_engine_def demo_history_def demo_move_def)
  then have h1: "reachable demo_engine demo_tree"
    by (simp add: demo_tree_def)
  have h2: "3 \<in> set (mainline demo_tree)"
    by code_simp
  have h3: "Some 3 \<noteq> mainline0 demo_tree"
    by code_simp
  from navigation_symmetry[OF h1 h2 h3] h2 h3 show ?thesis
    by simp
qed

section \<open>Paths to variation nodes\<close>

text \<open>
  Claims C1 and C2 fail on the code for a variation that starts at a mainline node which
  \<open>buildFromPGN\<close> made, two or more plies deep. Such a mainline node has a
  \<open>parentIndex\<close> and no \<open>parentId\<close>, so the walk of \<open>getPathToNode\<close> stops at it
  instead of going on to the root.

  In the example the store holds the old root (0), the root (1) and the nodes of e4 (2),
  e5 (3) and Nf3 (4); the variation Nc3 (5) hangs under e5.
\<close>

text \<open>
  Claim C2 at \<open>var_2_w_Nc3_1\<close>: the chain of ancestors below the root is e4, e5, Nc3,
  that is \<open>[2, 3, 5]\<close>; \<open>getPathToNode\<close> returns \<open>[3, 5]\<close>.
\<close>

theorem getPathToNode_variation_example:
  "mainline demo_var_tree = [1, 2, 3, 4]
   \<and> nodeMap demo_var_tree ''var_2_w_Nc3_1'' = Some 5
   \<and> parentId (heap demo_var_tree ! 5) = Some ''move_1_b_e5''
   \<and> nodeMap demo_var_tree ''move_1_b_e5'' = Some 3
   \<and> parentId (heap demo_var_tree ! 3) = None
   \<and> getPathToNode demo_var_tree ''var_2_w_Nc3_1'' = Some [3, 5]"
  by code_simp

text \<open>
  Claim C1 at the same node: \<open>getMovesToNode\<close> returns the moves e5, Nc3 without e4.
  Replayed from the starting position they give the position encoding of e5, Nc3, while
  the node stores the one of e4, e5, Nc3.
\<close>

theorem getMovesToNode_variation_example:
  "getMovesToNode demo_var_tree ''var_2_w_Nc3_1''
     = Some [(''e5'', demo_move ''e7'' ''e5'' ''e5''), (''Nc3'', demo_move ''b1'' ''c3'' ''Nc3'')]
   \<and> map_option (e_fen demo_engine)
        (replay demo_engine (e_reset demo_engine)
           [(''e5'', demo_move ''e7'' ''e5'' ''e5''), (''Nc3'', demo_move ''b1'' ''c3'' ''Nc3'')])
       = Some ''e7e5 b1c3 ''
   \<and> nodeMap demo_var_tree ''var_2_w_Nc3_1'' = Some 5
   \<and> fen (heap demo_var_tree ! 5) = Some ''e2e4 e7e5 b1c3 ''"
  by code_simp

end
